theory Spec2Isabelle
  imports Main "HOL-Library.Word"
begin

section \<open>The event loop of camellia-io (el.go)\<close>

text \<open>
  The loop is single threaded. Everything outside it that it calls is a parameter of the
  model: the selector of package \<open>internal\<close>, the clock (\<open>time.Now\<close>) and the
  callbacks stored as function values. A function value is a code address (\<open>None\<close> is the
  nil function); the environment gives the behaviour of each address as a transformer of
  the whole program state, which may also fail (a panic in user code).

  A callback is taken to return or to panic; one that never returns is not modelled.

  A pointer is an address into a store of objects, \<open>None\<close> is the nil pointer.
  The slice \<open>events\<close> is a slice header and the store holds its backing array: the
  loops over it run callbacks between their reads, and a callback may write the array.
  No loop over \<open>periodTasks\<close> runs a callback, so that slice is the list of its
  elements at the time it is read.
  Every call that leaves the loop is recorded in a trace, in the order the calls are made;
  what a callback calls in its turn is part of its effect on the state, not of the trace.
\<close>

subsection \<open>Time\<close>

text \<open>
  An instant is a number of nanoseconds on one time line, a \<open>time.Duration\<close> is a
  signed 64-bit number of nanoseconds. \<open>Time.Sub\<close> saturates at the least and the
  greatest duration, \<open>/\<close> on integers truncates toward zero. \<open>int\<close> has 64 bits, so
  that the conversion of a duration to \<open>int\<close> keeps its value.
\<close>

type_synonym Time = int
type_synonym Duration = int

definition Millisecond :: Duration where
  "Millisecond = 1000000"

definition minDuration :: Duration where
  "minDuration = - (2 ^ 63)"

definition maxDuration :: Duration where
  "maxDuration = 2 ^ 63 - 1"

definition time_Sub :: "Time \<Rightarrow> Time \<Rightarrow> Duration" where
  "time_Sub t u =
     (let d = t - u
      in if d > maxDuration then maxDuration
         else if d < minDuration then minDuration
         else d)"

definition time_Add :: "Time \<Rightarrow> Duration \<Rightarrow> Time" where
  "time_Add t d = t + d"

definition time_Before :: "Time \<Rightarrow> Time \<Rightarrow> bool" where
  "time_Before t u = (t < u)"

definition go_quot :: "int \<Rightarrow> int \<Rightarrow> int" where
  "go_quot a b = sgn a * sgn b * (\<bar>a\<bar> div \<bar>b\<bar>)"

subsection \<open>Data\<close>

type_synonym Action = int

definition CONTINUE :: Action where "CONTINUE = 0"
definition SHUTDOWN_RD :: Action where "SHUTDOWN_RD = 1"
definition SHUTDOWN_WR :: Action where "SHUTDOWN_WR = 2"
definition SHUTDOWN_RDWR :: Action where "SHUTDOWN_RDWR = 3"
definition TRIGGER_OPEN_EVENT :: Action where "TRIGGER_OPEN_EVENT = 4"
definition TRIGGER_DATA_EVENT :: Action where "TRIGGER_DATA_EVENT = 5"
definition TRIGGER_CLOSE_EVENT :: Action where "TRIGGER_CLOSE_EVENT = 6"

text \<open>A \<open>TriggerProc\<close> or \<open>EventProc\<close> value: the address of its code, or nil.\<close>

type_synonym proc = "nat option"

record Event =
  Serving :: proc
  Open :: proc
  Closed :: proc
  Data :: proc

text \<open>\<open>EventData\<close>: the fields \<open>e\<close> and \<open>data\<close>.\<close>

record 'v EventData =
  ed_e :: proc
  ed_data :: 'v

record PeriodTask =
  Interval :: Duration
  Event :: proc
  nextTriggerTime :: Time

text \<open>
  Modelled from the spec: the type of the keys that \<open>Selector.Poll\<close> returns is
  declared in package \<open>internal\<close>, which is not among the sources. The spec has
  \<open>poll\<close> return pairs of a descriptor and a datum, and \<open>Tick\<close> reads the fields
  \<open>Fd\<close> and \<open>Data\<close> of a key. The datum is an \<open>interface{}\<close>; \<open>None\<close> stands
  for a datum whose dynamic type is not \<open>EventData\<close> (the field is \<open>KData\<close> here).
\<close>

record 'v Key =
  Fd :: int
  KData :: "'v EventData option"

text \<open>
  A slice header: the address of the backing array, the length and the capacity.
\<close>

record slice =
  array :: nat
  len :: nat
  cap :: nat

text \<open>
  The struct \<open>EventLoop\<close>. \<open>Selector\<close> is the state of the embedded selector,
  \<open>events\<close> and \<open>periodTasks\<close> are slices of pointers, \<open>el_done\<close> is the field
  \<open>done\<close>.
\<close>

record ('s, 'v) EventLoop =
  Selector :: 's
  events :: slice
  interval :: Duration
  el_done :: bool
  triggerDataPtr :: "'v option"
  periodTasks :: "nat option list"

text \<open>
  The program state: the loop, the arrays of event pointers (\<open>eventArray w a i\<close> is
  element \<open>i\<close> of the array at the address \<open>a\<close>), the objects that pointers refer to,
  and the rest of the world (\<open>ext\<close>: the clock and the memory of the user's code).
\<close>

record ('s, 'v, 'x) world =
  el :: "('s, 'v) EventLoop"
  eventArray :: "nat \<Rightarrow> nat \<Rightarrow> nat option"
  eventObj :: "nat \<Rightarrow> Event"
  taskObj :: "nat \<Rightarrow> PeriodTask"
  ext :: 'x

datatype fault = NilPointer | NilFunc | TypeAssertion | UserPanic

datatype hook = OnServing | OnOpen | OnData | OnClosed | OnTask

text \<open>The calls that leave the loop, with their arguments (\<open>Now\<close>: with its result).\<close>

datatype 'v call =
    TimeNow Time
  | SelRegister int "32 word" "'v EventData"
  | SelUnregister int "32 word"
  | SelPoll int
  | CallEventProc nat 'v
  | CallTrigger hook nat "'v option"

text \<open>
  What the loop is linked with, as parameters. The selector of package \<open>internal\<close> is
  not among the sources: \<open>EV_READABLE\<close> and \<open>EV_WRITABLE\<close> are its interest masks,
  and each of its methods returns its error (if any) and the selector's new state;
  \<open>Poll\<close> returns the ready keys. \<open>time_Now\<close> reads the clock. \<open>triggerProc\<close> and
  \<open>eventProc\<close> run the code at an address.
\<close>

record ('s, 'v, 'x, 'e) env =
  EV_READABLE :: "32 word"
  EV_WRITABLE :: "32 word"
  time_Now :: "'x \<Rightarrow> Time \<times> 'x"
  sel_Register :: "int \<Rightarrow> 32 word \<Rightarrow> 'v EventData \<Rightarrow> 's \<Rightarrow> 'e option \<times> 's"
  sel_Unregister :: "int \<Rightarrow> 32 word \<Rightarrow> 's \<Rightarrow> 'e option \<times> 's"
  sel_Poll :: "int \<Rightarrow> 's \<Rightarrow> 'v Key list \<times> 's"
  triggerProc :: "nat \<Rightarrow> 'v option \<Rightarrow> ('s, 'v, 'x) world \<Rightarrow> fault + ('s, 'v, 'x) world"
  eventProc :: "nat \<Rightarrow> 'v \<Rightarrow> ('s, 'v, 'x) world \<Rightarrow> fault + Action \<times> ('s, 'v, 'x) world"

subsection \<open>Outcomes\<close>

text \<open>
  A piece of the loop yields the trace of the calls it made, and either the fault that
  stopped it or its result.
\<close>

type_synonym ('v, 'a) outcome = "'v call list \<times> (fault + 'a)"

definition ret :: "'a \<Rightarrow> ('v, 'a) outcome" where
  "ret a = ([], Inr a)"

definition panic :: "fault \<Rightarrow> ('v, 'a) outcome" where
  "panic f = ([], Inl f)"

definition bind :: "('v, 'a) outcome \<Rightarrow> ('a \<Rightarrow> ('v, 'b) outcome) \<Rightarrow> ('v, 'b) outcome" where
  "bind r f =
     (case r of
        (t, Inl x) \<Rightarrow> (t, Inl x)
      | (t, Inr a) \<Rightarrow> (case f a of (t', r') \<Rightarrow> (t @ t', r')))"

subsection \<open>Calls that leave the loop\<close>

definition now :: "('s, 'v, 'x, 'e) env \<Rightarrow> ('s, 'v, 'x) world \<Rightarrow> ('v, Time \<times> ('s, 'v, 'x) world) outcome" where
  "now env w = (case time_Now env (ext w) of (t, x) \<Rightarrow> ([TimeNow t], Inr (t, w\<lparr>ext := x\<rparr>)))"

definition Unregister :: "('s, 'v, 'x, 'e) env \<Rightarrow> int \<Rightarrow> 32 word \<Rightarrow> ('s, 'v, 'x) world
    \<Rightarrow> ('v, 'e option \<times> ('s, 'v, 'x) world) outcome" where
  "Unregister env fd msk w =
     (case sel_Unregister env fd msk (Selector (el w)) of
        (err, s) \<Rightarrow> ([SelUnregister fd msk], Inr (err, w\<lparr>el := (el w)\<lparr>Selector := s\<rparr>\<rparr>)))"

definition Poll :: "('s, 'v, 'x, 'e) env \<Rightarrow> int \<Rightarrow> ('s, 'v, 'x) world
    \<Rightarrow> ('v, 'v Key list \<times> ('s, 'v, 'x) world) outcome" where
  "Poll env timeout w =
     (case sel_Poll env timeout (Selector (el w)) of
        (keys, s) \<Rightarrow> ([SelPoll timeout], Inr (keys, w\<lparr>el := (el w)\<lparr>Selector := s\<rparr>\<rparr>)))"

text \<open>Calling a function value: nil panics, otherwise the call is made and may panic.\<close>

definition callTriggerProc :: "('s, 'v, 'x, 'e) env \<Rightarrow> hook \<Rightarrow> proc \<Rightarrow> 'v option
    \<Rightarrow> ('s, 'v, 'x) world \<Rightarrow> ('v, ('s, 'v, 'x) world) outcome" where
  "callTriggerProc env h f dataPtr w =
     (case f of
        None \<Rightarrow> panic NilFunc
      | Some c \<Rightarrow> ([CallTrigger h c dataPtr], triggerProc env c dataPtr w))"

definition callEventProc :: "('s, 'v, 'x, 'e) env \<Rightarrow> proc \<Rightarrow> 'v
    \<Rightarrow> ('s, 'v, 'x) world \<Rightarrow> ('v, Action \<times> ('s, 'v, 'x) world) outcome" where
  "callEventProc env f d w =
     (case f of
        None \<Rightarrow> panic NilFunc
      | Some c \<Rightarrow> ([CallEventProc c d], eventProc env c d w))"

subsection \<open>The operations of el.go\<close>

text \<open>
  \<open>NewEventLoop\<close>: \<open>events\<close> is an empty slice, of length and capacity 0 (no element
  of its array is ever read; the address is 0 here).
\<close>

definition NewEventLoop :: "'s \<Rightarrow> ('s, 'v) EventLoop" where
  "NewEventLoop sel =
     \<lparr>Selector = sel, events = \<lparr>array = 0, len = 0, cap = 0\<rparr>,
      interval = 100 * Millisecond, el_done = False,
      triggerDataPtr = None, periodTasks = []\<rparr>"

text \<open>
  \<open>AddEvent\<close>: \<open>append\<close> writes the element into the backing array when the capacity
  allows, and otherwise into a new array that starts with a copy of the elements. The
  address \<open>a\<close> and the capacity \<open>c\<close> of the new array are the choice of the runtime,
  parameters here.
\<close>

definition AddEvent :: "nat \<Rightarrow> nat \<Rightarrow> nat option \<Rightarrow> ('s, 'v, 'x) world \<Rightarrow> ('s, 'v, 'x) world" where
  "AddEvent a c e w =
     (let s = events (el w)
      in if len s < cap s
         then w\<lparr>eventArray := (eventArray w)
                  (array s := (eventArray w (array s))(len s := e)),
                el := (el w)\<lparr>events := s\<lparr>len := len s + 1\<rparr>\<rparr>\<rparr>
         else w\<lparr>eventArray := (eventArray w)
                  (a := (\<lambda>i. if i < len s then eventArray w (array s) i
                             else if i = len s then e else None)),
                el := (el w)\<lparr>events := \<lparr>array = a, len = len s + 1, cap = c\<rparr>\<rparr>\<rparr>)"

definition AddPeriodTask :: "nat option \<Rightarrow> ('s, 'v, 'x) world \<Rightarrow> ('s, 'v, 'x) world" where
  "AddPeriodTask t w = w\<lparr>el := (el w)\<lparr>periodTasks := periodTasks (el w) @ [t]\<rparr>\<rparr>"

definition SetTriggerDataPtr :: "'v \<Rightarrow> ('s, 'v, 'x) world \<Rightarrow> ('s, 'v, 'x) world" where
  "SetTriggerDataPtr d w = w\<lparr>el := (el w)\<lparr>triggerDataPtr := Some d\<rparr>\<rparr>"

definition Done :: "('s, 'v, 'x) world \<Rightarrow> ('s, 'v, 'x) world" where
  "Done w = w\<lparr>el := (el w)\<lparr>el_done := True\<rparr>\<rparr>"

definition Register :: "('s, 'v, 'x, 'e) env \<Rightarrow> int \<Rightarrow> 32 word \<Rightarrow> proc \<Rightarrow> 'v
    \<Rightarrow> ('s, 'v, 'x) world \<Rightarrow> ('v, 'e option \<times> ('s, 'v, 'x) world) outcome" where
  "Register env fd msk e d w =
     (case sel_Register env fd msk \<lparr>ed_e = e, ed_data = d\<rparr> (Selector (el w)) of
        (err, s) \<Rightarrow>
          ([SelRegister fd msk \<lparr>ed_e = e, ed_data = d\<rparr>],
           Inr (err, w\<lparr>el := (el w)\<lparr>Selector := s\<rparr>\<rparr>)))"

text \<open>
  \<open>setNextTriggerTime\<close> through the pointer \<open>t\<close>: \<open>time.Now()\<close> is called, then
  \<open>t.Interval\<close> is read, which panics on the nil pointer.
\<close>

definition setNextTriggerTime :: "('s, 'v, 'x, 'e) env \<Rightarrow> nat option \<Rightarrow> ('s, 'v, 'x) world
    \<Rightarrow> ('v, ('s, 'v, 'x) world) outcome" where
  "setNextTriggerTime env t w =
     bind (now env w) (\<lambda>(n, w1).
       case t of
         None \<Rightarrow> panic NilPointer
       | Some a \<Rightarrow>
           ret (w1\<lparr>taskObj := (taskObj w1)
                  (a := (taskObj w1 a)\<lparr>nextTriggerTime := time_Add n (Interval (taskObj w1 a))\<rparr>)\<rparr>))"

text \<open>
  The loop of \<open>findNearestTask\<close> over the remaining tasks, \<open>ans\<close> being the answer so
  far. \<open>t.nextTriggerTime\<close> is read only when \<open>ans\<close> is not nil.
\<close>

fun nearestFrom :: "(nat \<Rightarrow> PeriodTask) \<Rightarrow> nat option list \<Rightarrow> nat option \<Rightarrow> fault + nat option" where
  "nearestFrom T [] ans = Inr ans"
| "nearestFrom T (t # ts) ans =
     (case ans of
        None \<Rightarrow> nearestFrom T ts t
      | Some a \<Rightarrow>
          (case t of
             None \<Rightarrow> Inl NilPointer
           | Some b \<Rightarrow>
               if time_Before (nextTriggerTime (T b)) (nextTriggerTime (T a))
               then nearestFrom T ts t
               else nearestFrom T ts ans))"

definition findNearestTask :: "('s, 'v, 'x) world \<Rightarrow> fault + nat option" where
  "findNearestTask w = nearestFrom (taskObj w) (periodTasks (el w)) None"

text \<open>
  The three broadcast loops of \<open>processAction\<close> and the first loop of \<open>Run\<close> have one
  shape: \<open>for _, t := range el.events\<close>, whose body reads one callback field of the
  event \<open>t\<close> and, when it is set, calls it. \<open>range\<close> evaluates \<open>el.events\<close> once, which
  fixes the array and the length, and reads the element \<open>i\<close> of that array when the
  iteration \<open>i\<close> begins: \<open>rangeEventsFrom\<close> is the loop from the index \<open>i\<close> on, with
  \<open>k\<close> iterations left, over the array at the address \<open>a\<close>. \<open>arg\<close> reads the
  argument at the time of the call (the pending payload for the broadcasts, nil for
  \<open>Serving\<close>).
\<close>

fun rangeEventsFrom :: "('s, 'v, 'x, 'e) env \<Rightarrow> hook \<Rightarrow> (Event \<Rightarrow> proc)
    \<Rightarrow> (('s, 'v, 'x) world \<Rightarrow> 'v option) \<Rightarrow> nat \<Rightarrow> nat \<Rightarrow> nat \<Rightarrow> ('s, 'v, 'x) world
    \<Rightarrow> ('v, ('s, 'v, 'x) world) outcome" where
  "rangeEventsFrom env h field arg a i 0 w = ret w"
| "rangeEventsFrom env h field arg a i (Suc k) w =
     (case eventArray w a i of
        None \<Rightarrow> panic NilPointer
      | Some t \<Rightarrow>
          bind (case field (eventObj w t) of
                  None \<Rightarrow> ret w
                | Some c \<Rightarrow> callTriggerProc env h (Some c) (arg w) w)
               (rangeEventsFrom env h field arg a (Suc i) k))"

definition rangeEvents :: "('s, 'v, 'x, 'e) env \<Rightarrow> hook \<Rightarrow> (Event \<Rightarrow> proc)
    \<Rightarrow> (('s, 'v, 'x) world \<Rightarrow> 'v option) \<Rightarrow> ('s, 'v, 'x) world
    \<Rightarrow> ('v, ('s, 'v, 'x) world) outcome" where
  "rangeEvents env h field arg w =
     rangeEventsFrom env h field arg (array (events (el w))) 0 (len (events (el w))) w"

definition pending :: "('s, 'v, 'x) world \<Rightarrow> 'v option" where
  "pending w = triggerDataPtr (el w)"

definition processAction :: "('s, 'v, 'x, 'e) env \<Rightarrow> Action \<Rightarrow> int \<Rightarrow> ('s, 'v, 'x) world
    \<Rightarrow> ('v, ('s, 'v, 'x) world) outcome" where
  "processAction env action fd w =
     bind
       (if action = SHUTDOWN_RD then
          bind (Unregister env fd (EV_READABLE env) w) (\<lambda>(_, w1). ret w1)
        else if action = SHUTDOWN_WR then
          bind (Unregister env fd (EV_WRITABLE env) w) (\<lambda>(_, w1). ret w1)
        else if action = SHUTDOWN_RDWR then
          bind (Unregister env fd (EV_READABLE env) w) (\<lambda>(_, w1).
            bind (Unregister env fd (EV_WRITABLE env) w1) (\<lambda>(_, w2). ret w2))
        else if action = TRIGGER_OPEN_EVENT then
          rangeEvents env OnOpen Open pending w
        else if action = TRIGGER_DATA_EVENT then
          rangeEvents env OnData Data pending w
        else if action = TRIGGER_CLOSE_EVENT then
          rangeEvents env OnClosed Closed pending w
        else ret w)
       (\<lambda>w'. ret (w'\<lparr>el := (el w')\<lparr>triggerDataPtr := None\<rparr>\<rparr>))"

text \<open>
  The loop of \<open>Tick\<close> over the keys that \<open>Poll\<close> returned; the keys are the values
  of that result.
\<close>

fun processKeys :: "('s, 'v, 'x, 'e) env \<Rightarrow> 'v Key list \<Rightarrow> ('s, 'v, 'x) world
    \<Rightarrow> ('v, ('s, 'v, 'x) world) outcome" where
  "processKeys env [] w = ret w"
| "processKeys env (k # ks) w =
     (case KData k of
        None \<Rightarrow> panic TypeAssertion
      | Some ed \<Rightarrow>
          bind (callEventProc env (ed_e ed) (ed_data ed) w) (\<lambda>(action, w1).
            bind (processAction env action (Fd k) w1) (processKeys env ks)))"

text \<open>The wait of \<open>Tick\<close>, in nanoseconds: lines 65 to 71.\<close>

definition sleepTime :: "('s, 'v, 'x, 'e) env \<Rightarrow> nat option \<Rightarrow> ('s, 'v, 'x) world
    \<Rightarrow> ('v, Duration \<times> ('s, 'v, 'x) world) outcome" where
  "sleepTime env nearestTask w =
     (case nearestTask of
        None \<Rightarrow> ret (interval (el w), w)
      | Some a \<Rightarrow>
          bind (now env w) (\<lambda>(n, w1). ret (time_Sub (nextTriggerTime (taskObj w1 a)) n, w1)))"

definition Tick :: "('s, 'v, 'x, 'e) env \<Rightarrow> ('s, 'v, 'x) world \<Rightarrow> ('v, ('s, 'v, 'x) world) outcome" where
  "Tick env w =
     (case findNearestTask w of
        Inl f \<Rightarrow> panic f
      | Inr nearestTask \<Rightarrow>
          bind (sleepTime env nearestTask w) (\<lambda>(st, w1).
            bind (Poll env (go_quot st Millisecond) w1) (\<lambda>(keys, w2).
              bind (processKeys env keys w2) (\<lambda>w3.
                case nearestTask of
                  None \<Rightarrow> ret w3
                | Some a \<Rightarrow>
                    bind (callTriggerProc env OnTask (Event (taskObj w3 a)) None w3)
                         (setNextTriggerTime env nearestTask)))))"

text \<open>The second loop of \<open>Run\<close>.\<close>

fun setAllNextTriggerTimes :: "('s, 'v, 'x, 'e) env \<Rightarrow> nat option list \<Rightarrow> ('s, 'v, 'x) world
    \<Rightarrow> ('v, ('s, 'v, 'x) world) outcome" where
  "setAllNextTriggerTimes env [] w = ret w"
| "setAllNextTriggerTimes env (t # ts) w =
     bind (setNextTriggerTime env t w) (setAllNextTriggerTimes env ts)"

text \<open>
  The third loop of \<open>Run\<close> may run forever: \<open>None\<close> is that it does not return.
  \<open>acc\<close> is the trace so far.
\<close>

partial_function (option) tickLoop :: "('s, 'v, 'x, 'e) env \<Rightarrow> 'v call list \<Rightarrow> ('s, 'v, 'x) world
    \<Rightarrow> ('v, ('s, 'v, 'x) world) outcome option" where
  "tickLoop env acc w =
     (if el_done (el w) then Some (acc, Inr w)
      else (case Tick env w of
              (t, Inl f) \<Rightarrow> Some (acc @ t, Inl f)
            | (t, Inr w') \<Rightarrow> tickLoop env (acc @ t) w'))"

definition Run :: "('s, 'v, 'x, 'e) env \<Rightarrow> ('s, 'v, 'x) world \<Rightarrow> ('v, ('s, 'v, 'x) world) outcome option" where
  "Run env w =
     (case bind (rangeEvents env OnServing Serving (\<lambda>_. None) w)
                (\<lambda>w1. setAllNextTriggerTimes env (periodTasks (el w1)) w1) of
        (t, Inl f) \<Rightarrow> Some (t, Inl f)
      | (t, Inr w2) \<Rightarrow> tickLoop env t w2)"

declare tickLoop.simps [code]

text \<open>The elements of the slice \<open>events\<close>, as the state has them.\<close>

definition eventsOf :: "('s, 'v, 'x) world \<Rightarrow> nat option list" where
  "eventsOf w = map (eventArray w (array (events (el w)))) [0..<len (events (el w))]"

text \<open>
  The callbacks that are set in one field of the events of a list, in the order of the
  list: what a loop over the events is expected to call.
\<close>

definition hooked :: "(Event \<Rightarrow> proc) \<Rightarrow> (nat \<Rightarrow> Event) \<Rightarrow> nat option list \<Rightarrow> nat list" where
  "hooked field E es =
     List.map_filter (\<lambda>e. case e of None \<Rightarrow> None | Some a \<Rightarrow> field (E a)) es"

text \<open>
  Calling the callbacks of a list one after the other, each on the state the one before
  has left and with the argument as it is at the time of the call; a panic ends it.
\<close>

fun callAll :: "('s, 'v, 'x, 'e) env \<Rightarrow> hook \<Rightarrow> (('s, 'v, 'x) world \<Rightarrow> 'v option)
    \<Rightarrow> nat list \<Rightarrow> ('s, 'v, 'x) world \<Rightarrow> ('v, ('s, 'v, 'x) world) outcome" where
  "callAll env h arg [] w = ret w"
| "callAll env h arg (c # cs) w =
     bind ([CallTrigger h c (arg w)], triggerProc env c (arg w) w) (callAll env h arg cs)"

text \<open>\<open>k\<close> ticks one after the other, each run to its end.\<close>

fun ticks :: "('s, 'v, 'x, 'e) env \<Rightarrow> nat \<Rightarrow> ('s, 'v, 'x) world \<Rightarrow> ('v, ('s, 'v, 'x) world) outcome" where
  "ticks env 0 w = ret w"
| "ticks env (Suc k) w = bind (Tick env w) (ticks env k)"

text \<open>The calls of a trace that fire a period task.\<close>

fun firesTask :: "'v call \<Rightarrow> bool" where
  "firesTask (CallTrigger h c p) = (h = OnTask)"
| "firesTask _ = False"

subsection \<open>An example program\<close>

text \<open>
  A selector that replays a script of poll results, refuses every unregistration with
  error 1 and accepts every registration; a clock that advances by one millisecond at
  each reading. Trigger callback 0 calls \<open>Done\<close>, 1 does nothing, 2 assigns
  \<open>el.events[1] = el.events[0]\<close> in the backing array, any other panics.
  Descriptor callback 0 stages its datum as the pending payload and asks for the data
  broadcast, any other asks to continue.
\<close>

definition demo_env :: "(nat Key list list, nat, int, nat) env" where
  "demo_env =
     \<lparr>EV_READABLE = 1, EV_WRITABLE = 2,
      time_Now = (\<lambda>x. (x, x + Millisecond)),
      sel_Register = (\<lambda>fd msk d s. (None, s)),
      sel_Unregister = (\<lambda>fd msk s. (Some 1, s)),
      sel_Poll = (\<lambda>timeout s. case s of [] \<Rightarrow> ([], []) | ks # rest \<Rightarrow> (ks, rest)),
      triggerProc = (\<lambda>c p w.
        if c = 0 then Inr (Done w)
        else if c = 1 then Inr w
        else if c = 2 then
          Inr (w\<lparr>eventArray := (eventArray w)
                 (array (events (el w)) :=
                    (eventArray w (array (events (el w))))
                      (1 := eventArray w (array (events (el w))) 0))\<rparr>)
        else Inl UserPanic),
      eventProc = (\<lambda>c d w. if c = 0 then Inr (TRIGGER_DATA_EVENT, SetTriggerDataPtr d w)
                            else Inr (CONTINUE, w))\<rparr>"

text \<open>
  Two events, in an array at the address 7, and two tasks. The \<open>Data\<close> callback of the first event calls \<open>Done\<close>;
  the second event has a \<open>Data\<close> callback only. The clock reads 5 ms and the deadline
  of both tasks is at 60 ms; the second task has the interval 0. One descriptor, 3, is
  ready at the first poll.
\<close>

definition demo_world :: "(nat Key list list, nat, int) world" where
  "demo_world =
     \<lparr>el = (NewEventLoop [[\<lparr>Fd = 3, KData = Some \<lparr>ed_e = Some 0, ed_data = 42\<rparr>\<rparr>]])
              \<lparr>events := \<lparr>array = 7, len = 2, cap = 2\<rparr>, periodTasks := [Some 0, Some 1]\<rparr>,
      eventArray = (\<lambda>a i. if a = 7 \<and> i < 2 then Some i else None),
      eventObj = (\<lambda>a. if a = 0 then \<lparr>Serving = Some 1, Open = Some 1, Closed = None, Data = Some 0\<rparr>
                        else \<lparr>Serving = None, Open = None, Closed = None, Data = Some 1\<rparr>),
      taskObj = (\<lambda>a. if a = 0
                      then \<lparr>Interval = 50 * Millisecond, Event = Some 1,
                            nextTriggerTime = 60 * Millisecond\<rparr>
                      else \<lparr>Interval = 0, Event = Some 1,
                            nextTriggerTime = 60 * Millisecond\<rparr>),
      ext = 5 * Millisecond\<rparr>"

text \<open>The same with the clock at 90 ms: both deadlines have passed 30 ms ago.\<close>

definition late_world :: "(nat Key list list, nat, int) world" where
  "late_world = demo_world\<lparr>ext := 90 * Millisecond\<rparr>"

text \<open>The same where the \<open>Data\<close> callback of the first event is callback 2.\<close>

definition alias_world :: "(nat Key list list, nat, int) world" where
  "alias_world =
     demo_world\<lparr>eventObj := (eventObj demo_world)
       (0 := \<lparr>Serving = Some 1, Open = Some 1, Closed = None, Data = Some 2\<rparr>)\<rparr>"

text \<open>The same where the callback of the first task is callback 2.\<close>

definition firing_world :: "(nat Key list list, nat, int) world" where
  "firing_world =
     demo_world\<lparr>taskObj := (taskObj demo_world)
       (0 := \<lparr>Interval = 50 * Millisecond, Event = Some 2,
              nextTriggerTime = 60 * Millisecond\<rparr>)\<rparr>"

text \<open>The same with the second task alone, and with no task.\<close>

definition zero_world :: "(nat Key list list, nat, int) world" where
  "zero_world = demo_world\<lparr>el := (el demo_world)\<lparr>periodTasks := [Some 1]\<rparr>\<rparr>"

definition idle_world :: "(nat Key list list, nat, int) world" where
  "idle_world = demo_world\<lparr>el := (el demo_world)\<lparr>periodTasks := []\<rparr>\<rparr>"

section \<open>Properties\<close>

subsection \<open>Outcomes\<close>

lemma bind_ret [simp]: "bind (ret a) f = f a"
  by (simp add: bind_def ret_def split: prod.splits)

lemma bind_panic [simp]: "bind (panic x) f = panic x"
  by (simp add: bind_def panic_def)

lemma bind_Inr [simp]: "bind (t, Inr a) f = (t @ fst (f a), snd (f a))"
  by (simp add: bind_def split: prod.splits)

lemma bind_Inl [simp]: "bind (t, Inl x) f = (t, Inl x)"
  by (simp add: bind_def)

lemma bind_eq_Inr:
  "bind r f = (tr, Inr b) \<longleftrightarrow>
     (\<exists>t1 a t2. r = (t1, Inr a) \<and> f a = (t2, Inr b) \<and> tr = t1 @ t2)"
  by (cases r; cases "snd r") (auto simp: bind_def split: prod.splits sum.splits)

lemma rangeEventsFrom_numeral [simp]:
  "rangeEventsFrom env h field arg a i (numeral n) w =
     rangeEventsFrom env h field arg a i (Suc (pred_numeral n)) w"
  by (simp add: numeral_eq_Suc)

lemmas Action_defs =
  CONTINUE_def SHUTDOWN_RD_def SHUTDOWN_WR_def SHUTDOWN_RDWR_def
  TRIGGER_OPEN_EVENT_def TRIGGER_DATA_EVENT_def TRIGGER_CLOSE_EVENT_def

lemmas demo_defs =
  demo_env_def demo_world_def late_world_def zero_world_def idle_world_def alias_world_def
  firing_world_def
  NewEventLoop_def Done_def SetTriggerDataPtr_def Action_defs Millisecond_def

subsection \<open>Action dispatch\<close>

text \<open>
  C2. A dispatch step that runs to its end leaves the pending payload slot empty, whatever
  the action is: one of the seven constants (\<open>CONTINUE\<close> too) or any other value.
\<close>

theorem processAction_clears_pending:
  assumes "processAction env action fd w = (tr, Inr w')"
  shows "triggerDataPtr (el w') = None"
  using assms by (auto simp: processAction_def bind_eq_Inr ret_def)

text \<open>
  In the example, 42 is staged and the data broadcast runs, calling both events with it:
  the slot is empty afterwards.
\<close>

theorem processAction_clears_pending_witness:
  "pending (SetTriggerDataPtr 42 demo_world) = Some 42
   \<and> fst (processAction demo_env TRIGGER_DATA_EVENT 3 (SetTriggerDataPtr 42 demo_world)) =
       [CallTrigger OnData 0 (Some 42), CallTrigger OnData 1 (Some 42)]
   \<and> \<not> isl (snd (processAction demo_env TRIGGER_DATA_EVENT 3 (SetTriggerDataPtr 42 demo_world)))
   \<and> triggerDataPtr
        (el (projr (snd (processAction demo_env TRIGGER_DATA_EVENT 3
                           (SetTriggerDataPtr 42 demo_world))))) = None"
proof -
  let ?r = "processAction demo_env TRIGGER_DATA_EVENT 3 (SetTriggerDataPtr 42 demo_world)"
  have run: "fst ?r = [CallTrigger OnData 0 (Some 42), CallTrigger OnData 1 (Some 42)]"
    "\<not> isl (snd ?r)"
    by (simp_all add: processAction_def rangeEvents_def callTriggerProc_def pending_def
        ret_def demo_defs)
  then obtain tr w' where r: "?r = (tr, Inr w')"
    by (cases ?r; cases "snd ?r") auto
  have "pending (SetTriggerDataPtr 42 demo_world) = Some 42"
    by (simp add: pending_def demo_defs)
  with run r processAction_clears_pending [OF r] show ?thesis by simp
qed

text \<open>
  C7. Dispatching \<open>SHUTDOWN_RDWR\<close> for a descriptor is dispatching \<open>SHUTDOWN_RD\<close> and
  then \<open>SHUTDOWN_WR\<close> for it: the same calls in the same order and the same state
  afterwards, the selector's state in particular.
\<close>

theorem shutdown_both_is_read_then_write:
  "processAction env SHUTDOWN_RDWR fd w =
     bind (processAction env SHUTDOWN_RD fd w) (processAction env SHUTDOWN_WR fd)"
  by (simp add: processAction_def Action_defs Unregister_def ret_def split: prod.splits)

text \<open>
  C9. The shutdown actions call \<open>Unregister\<close> and drop what it returns: the dispatch
  never fails, its result depends on the selector's new state only, and
  \<open>SHUTDOWN_RDWR\<close> makes its second call whatever the first returned. \<open>Register\<close>
  calls the selector once and returns the selector's error as it is.
\<close>

theorem unregister_errors_dropped_register_error_returned:
  "processAction env SHUTDOWN_RD fd w =
     ([SelUnregister fd (EV_READABLE env)],
      Inr (w\<lparr>el := (el w)
         \<lparr>Selector := snd (sel_Unregister env fd (EV_READABLE env) (Selector (el w))),
          triggerDataPtr := None\<rparr>\<rparr>))
   \<and> processAction env SHUTDOWN_WR fd w =
     ([SelUnregister fd (EV_WRITABLE env)],
      Inr (w\<lparr>el := (el w)
         \<lparr>Selector := snd (sel_Unregister env fd (EV_WRITABLE env) (Selector (el w))),
          triggerDataPtr := None\<rparr>\<rparr>))
   \<and> processAction env SHUTDOWN_RDWR fd w =
     ([SelUnregister fd (EV_READABLE env), SelUnregister fd (EV_WRITABLE env)],
      Inr (w\<lparr>el := (el w)
         \<lparr>Selector := snd (sel_Unregister env fd (EV_WRITABLE env)
                        (snd (sel_Unregister env fd (EV_READABLE env) (Selector (el w))))),
          triggerDataPtr := None\<rparr>\<rparr>))
   \<and> Register env fd msk e d w =
     ([SelRegister fd msk \<lparr>ed_e = e, ed_data = d\<rparr>],
      Inr (fst (sel_Register env fd msk \<lparr>ed_e = e, ed_data = d\<rparr> (Selector (el w))),
           w\<lparr>el := (el w)
             \<lparr>Selector := snd (sel_Register env fd msk \<lparr>ed_e = e, ed_data = d\<rparr> (Selector (el w)))\<rparr>\<rparr>))"
  by (simp add: processAction_def Action_defs Unregister_def Register_def ret_def
      split: prod.splits)

text \<open>
  In the example every unregistration fails with error 1: \<open>SHUTDOWN_RDWR\<close> makes both
  calls and returns. With a selector that refuses a registration with error 7,
  \<open>Register\<close> returns error 7 after one call.
\<close>

theorem unregister_errors_dropped_register_error_returned_witness:
  "fst (sel_Unregister demo_env 3 (EV_READABLE demo_env) (Selector (el demo_world))) = Some 1
   \<and> fst (processAction demo_env SHUTDOWN_RDWR 3 demo_world) =
       [SelUnregister 3 1, SelUnregister 3 2]
   \<and> \<not> isl (snd (processAction demo_env SHUTDOWN_RDWR 3 demo_world))
   \<and> fst (Register (demo_env\<lparr>sel_Register := (\<lambda>fd msk d s. (Some 7, s))\<rparr>)
            3 1 (Some 0) 42 demo_world) =
       [SelRegister 3 1 \<lparr>ed_e = Some 0, ed_data = 42\<rparr>]
   \<and> map_sum id fst
        (snd (Register (demo_env\<lparr>sel_Register := (\<lambda>fd msk d s. (Some 7, s))\<rparr>)
                3 1 (Some 0) 42 demo_world)) = Inr (Some 7)"
  using unregister_errors_dropped_register_error_returned [of demo_env 3 demo_world]
    unregister_errors_dropped_register_error_returned
      [of "demo_env\<lparr>sel_Register := (\<lambda>fd msk d s. (Some 7, s))\<rparr>" 3 demo_world 1 "Some 0" 42]
  by (simp add: demo_defs)

text \<open>
  C10. For an action that is none of the seven constants, the dispatch calls nothing (no
  unregistration, no callback), does not fail, and changes nothing but the pending
  payload slot, which it empties.
\<close>

theorem processAction_other_action:
  assumes "action < 0 \<or> 6 < action"
  shows "processAction env action fd w =
           ([], Inr (w\<lparr>el := (el w)\<lparr>triggerDataPtr := None\<rparr>\<rparr>))"
  using assms by (auto simp: processAction_def Action_defs ret_def)

theorem processAction_other_action_witness:
  "((7::int) < 0 \<or> (6::int) < 7)
   \<and> processAction demo_env 7 3 (SetTriggerDataPtr 42 demo_world) =
       ([], Inr (demo_world\<lparr>el := (el demo_world)\<lparr>triggerDataPtr := None\<rparr>\<rparr>))"
  using processAction_other_action [of 7 demo_env 3 "SetTriggerDataPtr 42 demo_world"]
  by (simp add: demo_defs)

subsection \<open>What the loops call\<close>

text \<open>A loop over events calls trigger callbacks of its own hook only.\<close>

lemma rangeEventsFrom_calls:
  "rangeEventsFrom env h field arg a i k w = (tr, r) \<Longrightarrow>
     \<forall>x \<in> set tr. \<exists>c p. x = CallTrigger h c p"
proof (induction k arbitrary: i w tr r)
  case 0
  then show ?case by (simp add: ret_def)
next
  case (Suc k)
  show ?case
  proof (cases "eventArray w a i")
    case None
    with Suc.prems show ?thesis by (simp add: panic_def)
  next
    case (Some t)
    show ?thesis
    proof (cases "field (eventObj w t)")
      case None
      with Suc Some show ?thesis by simp
    next
      case c: (Some c)
      show ?thesis
      proof (cases "triggerProc env c (arg w) w")
        case (Inl f)
        with Suc.prems Some c show ?thesis by (auto simp: callTriggerProc_def)
      next
        case (Inr v)
        obtain t2 r2 where rest: "rangeEventsFrom env h field arg a (Suc i) k v = (t2, r2)"
          by (cases "rangeEventsFrom env h field arg a (Suc i) k v")
        from Suc.IH [OF rest] Suc.prems Some c Inr rest show ?thesis
          by (auto simp: callTriggerProc_def)
      qed
    qed
  qed
qed

lemma rangeEvents_calls:
  "rangeEvents env h field arg w = (tr, r) \<Longrightarrow> \<forall>x \<in> set tr. \<exists>c p. x = CallTrigger h c p"
  unfolding rangeEvents_def by (rule rangeEventsFrom_calls)

lemma processAction_no_task:
  assumes "processAction env action fd w = (tr, r)"
  shows "filter firesTask tr = []"
proof -
  have range: "filter firesTask t = []"
    if "rangeEvents env h field arg w = (t, r')" and "h \<noteq> OnTask" for h field arg t r'
    using rangeEvents_calls [OF that(1)] that(2) by (auto simp: filter_empty_conv)
  obtain t1 r1 where body: "(if action = SHUTDOWN_RD then
          bind (Unregister env fd (EV_READABLE env) w) (\<lambda>(_, w1). ret w1)
        else if action = SHUTDOWN_WR then
          bind (Unregister env fd (EV_WRITABLE env) w) (\<lambda>(_, w1). ret w1)
        else if action = SHUTDOWN_RDWR then
          bind (Unregister env fd (EV_READABLE env) w) (\<lambda>(_, w1).
            bind (Unregister env fd (EV_WRITABLE env) w1) (\<lambda>(_, w2). ret w2))
        else if action = TRIGGER_OPEN_EVENT then
          rangeEvents env OnOpen Open pending w
        else if action = TRIGGER_DATA_EVENT then
          rangeEvents env OnData Data pending w
        else if action = TRIGGER_CLOSE_EVENT then
          rangeEvents env OnClosed Closed pending w
        else ret w) = (t1, r1)" (is "?body = _")
    by (cases ?body)
  have "filter firesTask t1 = []"
    using body range [of OnOpen Open pending t1 r1]
      range [of OnData Data pending t1 r1]
      range [of OnClosed Closed pending t1 r1]
    by (auto simp: Unregister_def ret_def split: if_splits prod.splits)
  moreover have "tr = t1"
    using assms body unfolding processAction_def
    by (cases r1) (auto simp: ret_def)
  ultimately show ?thesis by simp
qed

lemma processKeys_no_task:
  "processKeys env ks w = (tr, r) \<Longrightarrow> filter firesTask tr = []"
proof (induction ks arbitrary: w tr r)
  case Nil
  then show ?case by (simp add: ret_def)
next
  case (Cons k ks)
  show ?case
  proof (cases "KData k")
    case None
    with Cons.prems show ?thesis by (simp add: panic_def)
  next
    case (Some ed)
    show ?thesis
    proof (cases "ed_e ed")
      case None
      with Cons.prems Some show ?thesis by (simp add: callEventProc_def panic_def)
    next
      case c: (Some c)
      show ?thesis
      proof (cases "eventProc env c (ed_data ed) w")
        case (Inl f)
        with Cons.prems Some c show ?thesis by (auto simp: callEventProc_def)
      next
        case (Inr aw)
        obtain action w1 where aw: "aw = (action, w1)" by (cases aw)
        obtain t1 r1 where pa: "processAction env action (Fd k) w1 = (t1, r1)"
          by (cases "processAction env action (Fd k) w1")
        note nt1 = processAction_no_task [OF pa]
        show ?thesis
        proof (cases r1)
          case f: (Inl f)
          with Cons.prems Some c Inr aw pa nt1 show ?thesis
            by (auto simp: callEventProc_def)
        next
          case w2: (Inr w2)
          obtain t2 r2 where rest: "processKeys env ks w2 = (t2, r2)"
            by (cases "processKeys env ks w2")
          from Cons.IH [OF rest] Cons.prems Some c Inr aw pa nt1 w2 rest show ?thesis
            by (auto simp: callEventProc_def)
        qed
      qed
    qed
  qed
qed

text \<open>
  A loop over events against calling the callbacks that are set, one after the other. When
  no element of the slice is nil and the callbacks that are set leave the event objects
  and the elements of the slice alone, the loop is \<open>callAll\<close> on those callbacks, in
  the order of the slice: the same calls, the same state, the same panic if there is one.
\<close>

lemma hooked_Nil [simp]: "hooked field E [] = []"
  by (simp add: hooked_def)

lemma hooked_Cons [simp]:
  "hooked field E (Some a # es) =
     (case field (E a) of None \<Rightarrow> hooked field E es | Some c \<Rightarrow> c # hooked field E es)"
  by (simp add: hooked_def split: option.splits)

lemma bind_cong_Inr:
  assumes "\<And>t a. r = (t, Inr a) \<Longrightarrow> f a = g a"
  shows "bind r f = bind r g"
  using assms by (cases r; cases "snd r") (auto simp: bind_def)

lemma callAll_trace:
  "callAll env h (\<lambda>_. p) cs w = (tr, Inr w') \<Longrightarrow> tr = map (\<lambda>c. CallTrigger h c p) cs"
proof (induction cs arbitrary: w tr)
  case Nil
  then show ?case by (simp add: ret_def)
next
  case (Cons c cs)
  from Cons.prems obtain v where v: "triggerProc env c p w = Inr v"
    by (cases "triggerProc env c p w") simp_all
  obtain t2 r2 where rest: "callAll env h (\<lambda>_. p) cs v = (t2, r2)"
    by (cases "callAll env h (\<lambda>_. p) cs v")
  with Cons.prems v have "r2 = Inr w'" "tr = CallTrigger h c p # t2"
    by simp_all
  with Cons.IH [of v t2] rest show ?case by simp
qed

lemma callAll_returns:
  assumes "\<forall>c \<in> set cs. \<forall>p v. \<exists>v'. triggerProc env c p v = Inr v' \<and> arg v' = arg v"
  shows "\<exists>w'. callAll env h arg cs w = (map (\<lambda>c. CallTrigger h c (arg w)) cs, Inr w')
           \<and> arg w' = arg w"
  using assms
proof (induction cs arbitrary: w)
  case Nil
  show ?case by (simp add: ret_def)
next
  case (Cons c cs)
  have "c \<in> set (c # cs)" by simp
  from Cons.prems [rule_format, OF this, of "arg w" w] obtain v where
    v: "triggerProc env c (arg w) w = Inr v" "arg v = arg w"
    by blast
  have "\<forall>c \<in> set cs. \<forall>p v. \<exists>v'. triggerProc env c p v = Inr v' \<and> arg v' = arg v"
    using Cons.prems by (meson list.set_intros(2))
  from Cons.IH [OF this, of v] obtain w' where
    "callAll env h arg cs v = (map (\<lambda>c. CallTrigger h c (arg v)) cs, Inr w')" "arg w' = arg v"
    by blast
  with v show ?case by simp
qed

lemma rangeEventsFrom_callAll:
  assumes "\<forall>j. i \<le> j \<and> j < i + k \<longrightarrow> eventArray w a j \<noteq> None"
    and "i + k \<le> n"
    and "\<forall>c \<in> set (hooked field (eventObj w) (map (eventArray w a) [i..<i + k])). \<forall>p v v'.
           triggerProc env c p v = Inr v' \<longrightarrow>
             eventObj v' = eventObj v \<and> (\<forall>j < n. eventArray v' a j = eventArray v a j)"
  shows "rangeEventsFrom env h field arg a i k w =
           callAll env h arg (hooked field (eventObj w) (map (eventArray w a) [i..<i + k])) w"
  using assms
proof (induction k arbitrary: i w)
  case 0
  show ?case by simp
next
  case (Suc k)
  from Suc.prems(1) obtain t where t: "eventArray w a i = Some t"
    by (cases "eventArray w a i") auto
  have upt: "[i..<i + Suc k] = i # [Suc i..<Suc i + k]"
    by (simp add: upt_rec)
  let ?rest = "hooked field (eventObj w) (map (eventArray w a) [Suc i..<Suc i + k])"
  have nn: "\<forall>j. Suc i \<le> j \<and> j < Suc i + k \<longrightarrow> eventArray w a j \<noteq> None"
    using Suc.prems(1) by simp
  have le: "Suc i + k \<le> n"
    using Suc.prems(2) by simp
  show ?case
  proof (cases "field (eventObj w t)")
    case None
    have hk: "hooked field (eventObj w) (map (eventArray w a) [i..<i + Suc k]) = ?rest"
      unfolding upt using t None by simp
    from Suc.prems(3) have frame: "\<forall>c \<in> set ?rest. \<forall>p v v'.
           triggerProc env c p v = Inr v' \<longrightarrow>
             eventObj v' = eventObj v \<and> (\<forall>j < n. eventArray v' a j = eventArray v a j)"
      unfolding hk .
    from Suc.IH [OF nn le frame] t None show ?thesis
      unfolding hk by simp
  next
    case (Some c)
    have hk: "hooked field (eventObj w) (map (eventArray w a) [i..<i + Suc k]) = c # ?rest"
      unfolding upt using t Some by simp
    have frame_c: "\<forall>p v v'. triggerProc env c p v = Inr v' \<longrightarrow>
             eventObj v' = eventObj v \<and> (\<forall>j < n. eventArray v' a j = eventArray v a j)"
      using Suc.prems(3) unfolding hk by (meson list.set_intros(1))
    have frame_w: "\<forall>c \<in> set ?rest. \<forall>p v v'.
           triggerProc env c p v = Inr v' \<longrightarrow>
             eventObj v' = eventObj v \<and> (\<forall>j < n. eventArray v' a j = eventArray v a j)"
      using Suc.prems(3) unfolding hk by (meson list.set_intros(2))
    have step: "rangeEventsFrom env h field arg a (Suc i) k v = callAll env h arg ?rest v"
      if v: "triggerProc env c (arg w) w = Inr v" for v
    proof -
      from frame_c v have obj: "eventObj v = eventObj w"
        and arr: "\<forall>j < n. eventArray v a j = eventArray w a j"
        by blast+
      have same: "map (eventArray v a) [Suc i..<Suc i + k] = map (eventArray w a) [Suc i..<Suc i + k]"
        using arr le by (intro map_cong) auto
      have nn': "\<forall>j. Suc i \<le> j \<and> j < Suc i + k \<longrightarrow> eventArray v a j \<noteq> None"
        using nn arr le by (metis less_le_trans)
      have frame_v: "\<forall>c \<in> set (hooked field (eventObj v) (map (eventArray v a) [Suc i..<Suc i + k])).
           \<forall>p v v'. triggerProc env c p v = Inr v' \<longrightarrow>
             eventObj v' = eventObj v \<and> (\<forall>j < n. eventArray v' a j = eventArray v a j)"
        unfolding same obj using frame_w .
      from Suc.IH [OF nn' le frame_v] show ?thesis
        unfolding same obj .
    qed
    have "rangeEventsFrom env h field arg a i (Suc k) w =
        bind ([CallTrigger h c (arg w)], triggerProc env c (arg w) w)
          (rangeEventsFrom env h field arg a (Suc i) k)"
      using t Some by (simp add: callTriggerProc_def)
    also have "\<dots> = bind ([CallTrigger h c (arg w)], triggerProc env c (arg w) w)
          (callAll env h arg ?rest)"
      by (rule bind_cong_Inr) (simp add: step)
    finally show ?thesis
      unfolding hk by simp
  qed
qed

lemma rangeEvents_callAll:
  assumes "None \<notin> set (eventsOf w)"
    and "\<forall>c \<in> set (hooked field (eventObj w) (eventsOf w)). \<forall>p v v'.
           triggerProc env c p v = Inr v' \<longrightarrow>
             eventObj v' = eventObj v
           \<and> (\<forall>j < len (events (el w)).
                 eventArray v' (array (events (el w))) j = eventArray v (array (events (el w))) j)"
  shows "rangeEvents env h field arg w =
           callAll env h arg (hooked field (eventObj w) (eventsOf w)) w"
proof -
  have nn: "\<forall>j. 0 \<le> j \<and> j < 0 + len (events (el w)) \<longrightarrow>
              eventArray w (array (events (el w))) j \<noteq> None"
  proof (intro allI impI)
    fix j assume "0 \<le> j \<and> j < 0 + len (events (el w))"
    then have "eventArray w (array (events (el w))) j \<in> set (eventsOf w)"
      by (simp add: eventsOf_def)
    with assms(1) show "eventArray w (array (events (el w))) j \<noteq> None"
      by metis
  qed
  have frame: "\<forall>c \<in> set (hooked field (eventObj w)
                  (map (eventArray w (array (events (el w)))) [0..<0 + len (events (el w))])).
         \<forall>p v v'. triggerProc env c p v = Inr v' \<longrightarrow>
             eventObj v' = eventObj v
           \<and> (\<forall>j < len (events (el w)).
                 eventArray v' (array (events (el w))) j = eventArray v (array (events (el w))) j)"
    using assms(2) unfolding eventsOf_def by simp
  from rangeEventsFrom_callAll [OF nn _ frame, of h arg]
  show ?thesis
    unfolding rangeEvents_def eventsOf_def by simp
qed

subsection \<open>Broadcasts\<close>

text \<open>
  C6. Let the action be one of the three broadcasts, no element of the slice \<open>events\<close>
  be nil, and let the callbacks that are set in the field of the action (\<open>Open\<close>,
  \<open>Data\<close>, \<open>Closed\<close>) leave the event objects and the elements of the slice as they
  are. Then the dispatch is: call those callbacks, one call for each event that has the
  field set, in the order of registration, each on the state that the call before has left
  and with the pending payload as it is then; then empty the slot. An event with the
  field unset is passed over. The calls, the resulting state and a panic of a callback are
  those of \<open>callAll\<close>. When these callbacks also return and leave the slot alone, the
  dispatch returns, and every call has the payload that was pending at the start.
\<close>

theorem broadcast_calls_every_event_in_order:
  assumes "action = TRIGGER_OPEN_EVENT \<and> h = OnOpen \<and> field = Open
         \<or> action = TRIGGER_DATA_EVENT \<and> h = OnData \<and> field = Data
         \<or> action = TRIGGER_CLOSE_EVENT \<and> h = OnClosed \<and> field = Closed"
    and "None \<notin> set (eventsOf w)"
    and "\<forall>c \<in> set (hooked field (eventObj w) (eventsOf w)). \<forall>p v v'.
           triggerProc env c p v = Inr v' \<longrightarrow>
             eventObj v' = eventObj v
           \<and> (\<forall>j < len (events (el w)).
                 eventArray v' (array (events (el w))) j = eventArray v (array (events (el w))) j)"
  shows "processAction env action fd w =
           bind (callAll env h pending (hooked field (eventObj w) (eventsOf w)) w)
             (\<lambda>w'. ret (w'\<lparr>el := (el w')\<lparr>triggerDataPtr := None\<rparr>\<rparr>))
       \<and> ((\<forall>c \<in> set (hooked field (eventObj w) (eventsOf w)). \<forall>p v. \<exists>v'.
              triggerProc env c p v = Inr v' \<and> pending v' = pending v) \<longrightarrow>
           (\<exists>w'. callAll env h pending (hooked field (eventObj w) (eventsOf w)) w =
                    (map (\<lambda>c. CallTrigger h c (pending w))
                       (hooked field (eventObj w) (eventsOf w)), Inr w')
                \<and> processAction env action fd w =
                    (map (\<lambda>c. CallTrigger h c (pending w))
                       (hooked field (eventObj w) (eventsOf w)),
                     Inr (w'\<lparr>el := (el w')\<lparr>triggerDataPtr := None\<rparr>\<rparr>))))"
proof (intro conjI impI)
  from assms(1) have "processAction env action fd w =
      bind (rangeEvents env h field pending w)
        (\<lambda>w'. ret (w'\<lparr>el := (el w')\<lparr>triggerDataPtr := None\<rparr>\<rparr>))"
    by (auto simp: processAction_def Action_defs)
  with rangeEvents_callAll [OF assms(2,3), of h pending]
  show eq: "processAction env action fd w =
           bind (callAll env h pending (hooked field (eventObj w) (eventsOf w)) w)
             (\<lambda>w'. ret (w'\<lparr>el := (el w')\<lparr>triggerDataPtr := None\<rparr>\<rparr>))"
    by simp
  assume "\<forall>c \<in> set (hooked field (eventObj w) (eventsOf w)). \<forall>p v. \<exists>v'.
              triggerProc env c p v = Inr v' \<and> pending v' = pending v"
  from callAll_returns [OF this, of h w] obtain w' where
    "callAll env h pending (hooked field (eventObj w) (eventsOf w)) w =
       (map (\<lambda>c. CallTrigger h c (pending w)) (hooked field (eventObj w) (eventsOf w)), Inr w')"
    by blast
  with eq show "\<exists>w'. callAll env h pending (hooked field (eventObj w) (eventsOf w)) w =
                    (map (\<lambda>c. CallTrigger h c (pending w))
                       (hooked field (eventObj w) (eventsOf w)), Inr w')
                \<and> processAction env action fd w =
                    (map (\<lambda>c. CallTrigger h c (pending w))
                       (hooked field (eventObj w) (eventsOf w)),
                     Inr (w'\<lparr>el := (el w')\<lparr>triggerDataPtr := None\<rparr>\<rparr>))"
    by (simp add: ret_def)
qed

text \<open>
  In the example 42 is staged and the data broadcast runs: both events are called with
  42, and the state afterwards has the flag \<open>done\<close> that the first event's callback
  sets.
\<close>

lemma eventsOf_demo_world:
  "eventsOf (SetTriggerDataPtr 42 demo_world) = [Some 0, Some 1]"
  "eventsOf demo_world = [Some 0, Some 1]"
  by (simp_all add: eventsOf_def upt_rec demo_defs)

theorem broadcast_calls_every_event_in_order_witness:
  "fst (processAction demo_env TRIGGER_DATA_EVENT 3 (SetTriggerDataPtr 42 demo_world)) =
     [CallTrigger OnData 0 (Some 42), CallTrigger OnData 1 (Some 42)]
   \<and> \<not> isl (snd (processAction demo_env TRIGGER_DATA_EVENT 3 (SetTriggerDataPtr 42 demo_world)))
   \<and> el_done (el (projr (snd (processAction demo_env TRIGGER_DATA_EVENT 3
                                 (SetTriggerDataPtr 42 demo_world)))))
   \<and> \<not> el_done (el (SetTriggerDataPtr 42 demo_world))"
proof -
  let ?w = "SetTriggerDataPtr 42 demo_world"
  have nn: "None \<notin> set (eventsOf ?w)"
    by (simp add: eventsOf_demo_world)
  have hk: "hooked Data (eventObj ?w) (eventsOf ?w) = [0, 1]"
    by (simp add: eventsOf_demo_world) (simp add: demo_defs)
  have frame: "\<forall>c \<in> set (hooked Data (eventObj ?w) (eventsOf ?w)). \<forall>p v v'.
           triggerProc demo_env c p v = Inr v' \<longrightarrow>
             eventObj v' = eventObj v
           \<and> (\<forall>j < len (events (el ?w)).
                 eventArray v' (array (events (el ?w))) j = eventArray v (array (events (el ?w))) j)"
    unfolding hk by (auto simp: demo_env_def Done_def)
  have keep: "\<forall>c \<in> set (hooked Data (eventObj ?w) (eventsOf ?w)). \<forall>p v. \<exists>v'.
              triggerProc demo_env c p v = Inr v' \<and> pending v' = pending v"
    unfolding hk by (auto simp: demo_env_def Done_def pending_def)
  note bc = broadcast_calls_every_event_in_order
    [of TRIGGER_DATA_EVENT OnData Data ?w demo_env 3, OF _ nn frame]
  from bc have eq: "processAction demo_env TRIGGER_DATA_EVENT 3 ?w =
           bind (callAll demo_env OnData pending [0, 1] ?w)
             (\<lambda>w'. ret (w'\<lparr>el := (el w')\<lparr>triggerDataPtr := None\<rparr>\<rparr>))"
    unfolding hk by simp
  from bc keep obtain w' where "processAction demo_env TRIGGER_DATA_EVENT 3 ?w =
      (map (\<lambda>c. CallTrigger OnData c (pending ?w)) (hooked Data (eventObj ?w) (eventsOf ?w)),
       Inr (w'\<lparr>el := (el w')\<lparr>triggerDataPtr := None\<rparr>\<rparr>))"
    by blast
  then have "fst (processAction demo_env TRIGGER_DATA_EVENT 3 ?w) =
     [CallTrigger OnData 0 (Some 42), CallTrigger OnData 1 (Some 42)]"
    unfolding hk by (simp add: pending_def demo_defs)
  moreover from eq have "\<not> isl (snd (processAction demo_env TRIGGER_DATA_EVENT 3 ?w))"
    "el_done (el (projr (snd (processAction demo_env TRIGGER_DATA_EVENT 3 ?w))))"
    by (simp_all add: pending_def ret_def demo_defs)
  moreover have "\<not> el_done (el ?w)"
    by (simp add: demo_defs)
  ultimately show ?thesis by blast
qed

text \<open>
  The elements are read as the loop goes: where the callback of the first event assigns
  \<open>el.events[1] = el.events[0]\<close>, the second call is again the first event's callback.
\<close>

lemma rangeEvents_reads_elements_live:
  "fst (processAction demo_env TRIGGER_DATA_EVENT 3 alias_world) =
     [CallTrigger OnData 2 None, CallTrigger OnData 2 None]"
  by (simp add: processAction_def rangeEvents_def callTriggerProc_def pending_def ret_def
      demo_defs)

subsection \<open>The nearest task\<close>

text \<open>
  The loop of \<open>findNearestTask\<close>, started with a task \<open>a\<close> as its answer so far and
  run over tasks none of which is nil: it ends with a task whose deadline is not after any
  deadline it has seen, and that is either \<open>a\<close> or the first one strictly before all
  the earlier ones.
\<close>

lemma nearestFrom_Some:
  assumes "None \<notin> set ts"
  shows "\<exists>r. nearestFrom T ts (Some a) = Inr (Some r)
      \<and> nextTriggerTime (T r) \<le> nextTriggerTime (T a)
      \<and> (\<forall>b. Some b \<in> set ts \<longrightarrow> nextTriggerTime (T r) \<le> nextTriggerTime (T b))
      \<and> (r = a \<or> (\<exists>i < length ts. ts ! i = Some r
            \<and> nextTriggerTime (T r) < nextTriggerTime (T a)
            \<and> (\<forall>j < i. \<forall>b. ts ! j = Some b \<longrightarrow> nextTriggerTime (T r) < nextTriggerTime (T b))))"
  using assms
proof (induction ts arbitrary: a)
  case Nil
  then show ?case by simp
next
  case (Cons t ts)
  then obtain b where t: "t = Some b" and nn: "None \<notin> set ts"
    by (cases t) auto
  show ?case
  proof (cases "nextTriggerTime (T b) < nextTriggerTime (T a)")
    case True
    from Cons.IH [OF nn, of b] obtain r where r:
      "nearestFrom T ts (Some b) = Inr (Some r)"
      "nextTriggerTime (T r) \<le> nextTriggerTime (T b)"
      "\<forall>c. Some c \<in> set ts \<longrightarrow> nextTriggerTime (T r) \<le> nextTriggerTime (T c)"
      "r = b \<or> (\<exists>i < length ts. ts ! i = Some r
            \<and> nextTriggerTime (T r) < nextTriggerTime (T b)
            \<and> (\<forall>j < i. \<forall>c. ts ! j = Some c \<longrightarrow> nextTriggerTime (T r) < nextTriggerTime (T c)))"
      by blast
    from r(4) have pos: "\<exists>i < length (t # ts). (t # ts) ! i = Some r
            \<and> nextTriggerTime (T r) < nextTriggerTime (T a)
            \<and> (\<forall>j < i. \<forall>c. (t # ts) ! j = Some c \<longrightarrow> nextTriggerTime (T r) < nextTriggerTime (T c))"
    proof
      assume "r = b"
      with True t show ?thesis by (intro exI [of _ 0]) simp
    next
      assume "\<exists>i < length ts. ts ! i = Some r
            \<and> nextTriggerTime (T r) < nextTriggerTime (T b)
            \<and> (\<forall>j < i. \<forall>c. ts ! j = Some c \<longrightarrow> nextTriggerTime (T r) < nextTriggerTime (T c))"
      then obtain i where i: "i < length ts" "ts ! i = Some r"
        "nextTriggerTime (T r) < nextTriggerTime (T b)"
        "\<forall>j < i. \<forall>c. ts ! j = Some c \<longrightarrow> nextTriggerTime (T r) < nextTriggerTime (T c)"
        by blast
      have "\<forall>j < Suc i. \<forall>c. (t # ts) ! j = Some c \<longrightarrow> nextTriggerTime (T r) < nextTriggerTime (T c)"
        using i(3,4) t by (auto simp: nth_Cons split: nat.splits)
      with i True show ?thesis by (intro exI [of _ "Suc i"]) simp
    qed
    from True t r(1) have "nearestFrom T (t # ts) (Some a) = Inr (Some r)"
      by (simp add: time_Before_def)
    with r(2,3) True t pos show ?thesis by auto
  next
    case False
    from Cons.IH [OF nn, of a] obtain r where r:
      "nearestFrom T ts (Some a) = Inr (Some r)"
      "nextTriggerTime (T r) \<le> nextTriggerTime (T a)"
      "\<forall>c. Some c \<in> set ts \<longrightarrow> nextTriggerTime (T r) \<le> nextTriggerTime (T c)"
      "r = a \<or> (\<exists>i < length ts. ts ! i = Some r
            \<and> nextTriggerTime (T r) < nextTriggerTime (T a)
            \<and> (\<forall>j < i. \<forall>c. ts ! j = Some c \<longrightarrow> nextTriggerTime (T r) < nextTriggerTime (T c)))"
      by blast
    from r(4) have pos: "r = a \<or> (\<exists>i < length (t # ts). (t # ts) ! i = Some r
            \<and> nextTriggerTime (T r) < nextTriggerTime (T a)
            \<and> (\<forall>j < i. \<forall>c. (t # ts) ! j = Some c \<longrightarrow> nextTriggerTime (T r) < nextTriggerTime (T c)))"
    proof
      assume "r = a"
      then show ?thesis by simp
    next
      assume "\<exists>i < length ts. ts ! i = Some r
            \<and> nextTriggerTime (T r) < nextTriggerTime (T a)
            \<and> (\<forall>j < i. \<forall>c. ts ! j = Some c \<longrightarrow> nextTriggerTime (T r) < nextTriggerTime (T c))"
      then obtain i where i: "i < length ts" "ts ! i = Some r"
        "nextTriggerTime (T r) < nextTriggerTime (T a)"
        "\<forall>j < i. \<forall>c. ts ! j = Some c \<longrightarrow> nextTriggerTime (T r) < nextTriggerTime (T c)"
        by blast
      have "\<forall>j < Suc i. \<forall>c. (t # ts) ! j = Some c \<longrightarrow> nextTriggerTime (T r) < nextTriggerTime (T c)"
        using i(3,4) t False by (auto simp: nth_Cons split: nat.splits)
      with i show ?thesis by (intro disjI2 exI [of _ "Suc i"]) simp
    qed
    from False t r(1) have "nearestFrom T (t # ts) (Some a) = Inr (Some r)"
      by (simp add: time_Before_def)
    with r(2,3) False t pos show ?thesis by auto
  qed
qed

lemma findNearestTask_least:
  assumes "periodTasks (el w) \<noteq> []" and "None \<notin> set (periodTasks (el w))"
  shows "\<exists>a. findNearestTask w = Inr (Some a) \<and> Some a \<in> set (periodTasks (el w))
      \<and> (\<forall>b. Some b \<in> set (periodTasks (el w)) \<longrightarrow>
            nextTriggerTime (taskObj w a) \<le> nextTriggerTime (taskObj w b))"
proof -
  from assms obtain a ts where ps: "periodTasks (el w) = Some a # ts" and nn: "None \<notin> set ts"
    by (cases "periodTasks (el w)") (auto, metis option.exhaust)
  from nearestFrom_Some [OF nn, of "taskObj w" a] obtain r where r:
      "nearestFrom (taskObj w) ts (Some a) = Inr (Some r)"
      "nextTriggerTime (taskObj w r) \<le> nextTriggerTime (taskObj w a)"
      "\<forall>c. Some c \<in> set ts \<longrightarrow> nextTriggerTime (taskObj w r) \<le> nextTriggerTime (taskObj w c)"
      "r = a \<or> (\<exists>i < length ts. ts ! i = Some r
            \<and> nextTriggerTime (taskObj w r) < nextTriggerTime (taskObj w a)
            \<and> (\<forall>j < i. \<forall>c. ts ! j = Some c \<longrightarrow> nextTriggerTime (taskObj w r) < nextTriggerTime (taskObj w c)))"
    by blast
  have "findNearestTask w = Inr (Some r)"
    using r(1) ps by (simp add: findNearestTask_def)
  moreover have "Some r \<in> set (periodTasks (el w))"
    using r(4) ps by (auto simp: in_set_conv_nth)
  moreover have "\<forall>b. Some b \<in> set (periodTasks (el w)) \<longrightarrow>
            nextTriggerTime (taskObj w r) \<le> nextTriggerTime (taskObj w b)"
    using r(2,3) ps by auto
  ultimately show ?thesis by blast
qed

text \<open>
  C5. When tasks are registered (and no task pointer is nil), \<open>findNearestTask\<close>
  returns a registered task such that no registered task has a deadline before its own,
  and every task registered earlier has a deadline strictly after its own: of several tasks
  with the earliest deadline, the one registered first.
\<close>

theorem findNearestTask_nearest_first_registered:
  assumes "periodTasks (el w) \<noteq> []" and "None \<notin> set (periodTasks (el w))"
  shows "\<exists>i a. i < length (periodTasks (el w)) \<and> periodTasks (el w) ! i = Some a
      \<and> findNearestTask w = Inr (Some a)
      \<and> (\<forall>b. Some b \<in> set (periodTasks (el w)) \<longrightarrow>
            \<not> time_Before (nextTriggerTime (taskObj w b)) (nextTriggerTime (taskObj w a)))
      \<and> (\<forall>j < i. \<forall>b. periodTasks (el w) ! j = Some b \<longrightarrow>
            time_Before (nextTriggerTime (taskObj w a)) (nextTriggerTime (taskObj w b)))"
proof -
  from assms obtain a ts where ps: "periodTasks (el w) = Some a # ts" and nn: "None \<notin> set ts"
    by (cases "periodTasks (el w)") (auto, metis option.exhaust)
  from nearestFrom_Some [OF nn, of "taskObj w" a] obtain r where r:
      "nearestFrom (taskObj w) ts (Some a) = Inr (Some r)"
      "nextTriggerTime (taskObj w r) \<le> nextTriggerTime (taskObj w a)"
      "\<forall>c. Some c \<in> set ts \<longrightarrow> nextTriggerTime (taskObj w r) \<le> nextTriggerTime (taskObj w c)"
      "r = a \<or> (\<exists>i < length ts. ts ! i = Some r
            \<and> nextTriggerTime (taskObj w r) < nextTriggerTime (taskObj w a)
            \<and> (\<forall>j < i. \<forall>c. ts ! j = Some c \<longrightarrow> nextTriggerTime (taskObj w r) < nextTriggerTime (taskObj w c)))"
    by blast
  have found: "findNearestTask w = Inr (Some r)"
    using r(1) ps by (simp add: findNearestTask_def)
  have least: "\<forall>b. Some b \<in> set (periodTasks (el w)) \<longrightarrow>
            \<not> time_Before (nextTriggerTime (taskObj w b)) (nextTriggerTime (taskObj w r))"
    using r(2,3) ps by (auto simp: time_Before_def)
  from r(4) show ?thesis
  proof
    assume "r = a"
    with found least ps show ?thesis by (intro exI [of _ 0] exI [of _ a]) simp
  next
    assume "\<exists>i < length ts. ts ! i = Some r
            \<and> nextTriggerTime (taskObj w r) < nextTriggerTime (taskObj w a)
            \<and> (\<forall>j < i. \<forall>c. ts ! j = Some c \<longrightarrow> nextTriggerTime (taskObj w r) < nextTriggerTime (taskObj w c))"
    then obtain i where i: "i < length ts" "ts ! i = Some r"
        "nextTriggerTime (taskObj w r) < nextTriggerTime (taskObj w a)"
        "\<forall>j < i. \<forall>c. ts ! j = Some c \<longrightarrow> nextTriggerTime (taskObj w r) < nextTriggerTime (taskObj w c)"
      by blast
    have "\<forall>j < Suc i. \<forall>b. periodTasks (el w) ! j = Some b \<longrightarrow>
            time_Before (nextTriggerTime (taskObj w r)) (nextTriggerTime (taskObj w b))"
      using i(3,4) ps by (auto simp: nth_Cons time_Before_def split: nat.splits)
    with i found least ps show ?thesis by (intro exI [of _ "Suc i"] exI [of _ r]) simp
  qed
qed

text \<open>In the example the two tasks have the same deadline: the first is chosen.\<close>

theorem findNearestTask_nearest_first_registered_witness:
  "periodTasks (el demo_world) = [Some 0, Some 1]
   \<and> nextTriggerTime (taskObj demo_world 0) = nextTriggerTime (taskObj demo_world 1)
   \<and> findNearestTask demo_world = Inr (Some 0)"
proof -
  have ps: "periodTasks (el demo_world) = [Some 0, Some 1]"
    and tie: "nextTriggerTime (taskObj demo_world 0) = nextTriggerTime (taskObj demo_world 1)"
    by (simp_all add: demo_defs)
  from ps have ne: "periodTasks (el demo_world) \<noteq> []" and nn: "None \<notin> set (periodTasks (el demo_world))"
    by simp_all
  from findNearestTask_nearest_first_registered [OF ne nn] obtain i a where
    i: "i < length (periodTasks (el demo_world))" "periodTasks (el demo_world) ! i = Some a"
    and found: "findNearestTask demo_world = Inr (Some a)"
    and first: "\<forall>j < i. \<forall>b. periodTasks (el demo_world) ! j = Some b \<longrightarrow>
            time_Before (nextTriggerTime (taskObj demo_world a)) (nextTriggerTime (taskObj demo_world b))"
    by blast
  have "i = 0"
  proof (rule ccontr)
    assume "i \<noteq> 0"
    with i ps have "i = 1" "a = 1" by (auto simp: less_Suc_eq)
    with first ps have "time_Before (nextTriggerTime (taskObj demo_world 1)) (nextTriggerTime (taskObj demo_world 0))"
      by simp
    with tie show False by (simp add: time_Before_def)
  qed
  with i ps have "a = 0" by simp
  with found ps tie show ?thesis by simp
qed

subsection \<open>One tick\<close>

text \<open>
  The first calls of a tick, the shape of a tick that has a nearest task and returns, and
  the number of task callbacks in any tick.
\<close>

lemma Tick_start_Some:
  assumes "findNearestTask w = Inr (Some a)"
  shows "\<exists>tr' r. Tick env w =
     (TimeNow (fst (time_Now env (ext w)))
        # SelPoll (go_quot (time_Sub (nextTriggerTime (taskObj w a)) (fst (time_Now env (ext w)))) Millisecond)
        # tr', r)"
  using assms
  by (auto simp: Tick_def sleepTime_def now_def Poll_def bind_def ret_def
      split: prod.splits sum.splits)

lemma Tick_start_None:
  assumes "findNearestTask w = Inr None"
  shows "\<exists>tr' r. Tick env w = (SelPoll (go_quot (interval (el w)) Millisecond) # tr', r)"
  using assms
  by (auto simp: Tick_def sleepTime_def now_def Poll_def bind_def ret_def
      split: prod.splits sum.splits)

lemma Tick_Some_returns:
  assumes "findNearestTask w = Inr (Some a)" and "Tick env w = (tr, Inr w')"
  shows "\<exists>n0 x0 keys s trk w3 c w4 n1 x1.
      time_Now env (ext w) = (n0, x0)
    \<and> sel_Poll env (go_quot (time_Sub (nextTriggerTime (taskObj w a)) n0) Millisecond)
          (Selector (el w)) = (keys, s)
    \<and> processKeys env keys (w\<lparr>ext := x0, el := (el w)\<lparr>Selector := s\<rparr>\<rparr>) = (trk, Inr w3)
    \<and> Event (taskObj w3 a) = Some c
    \<and> triggerProc env c None w3 = Inr w4
    \<and> time_Now env (ext w4) = (n1, x1)
    \<and> w' = w4\<lparr>ext := x1,
              taskObj := (taskObj w4)
                (a := (taskObj w4 a)\<lparr>nextTriggerTime := n1 + Interval (taskObj w4 a)\<rparr>)\<rparr>
    \<and> tr = [TimeNow n0,
             SelPoll (go_quot (time_Sub (nextTriggerTime (taskObj w a)) n0) Millisecond)]
            @ trk @ [CallTrigger OnTask c None, TimeNow n1]"
proof -
  obtain n0 x0 where n0: "time_Now env (ext w) = (n0, x0)"
    by (cases "time_Now env (ext w)")
  let ?b = "go_quot (time_Sub (nextTriggerTime (taskObj w a)) n0) Millisecond"
  obtain keys s where poll: "sel_Poll env ?b (Selector (el w)) = (keys, s)"
    by (cases "sel_Poll env ?b (Selector (el w))")
  let ?w2 = "w\<lparr>ext := x0, el := (el w)\<lparr>Selector := s\<rparr>\<rparr>"
  obtain trk r3 where pk: "processKeys env keys ?w2 = (trk, r3)"
    by (cases "processKeys env keys ?w2")
  from assms n0 poll pk obtain w3 where r3: "r3 = Inr w3"
    by (cases r3) (auto simp: Tick_def sleepTime_def now_def Poll_def ret_def)
  from assms n0 poll pk r3 obtain c where c: "Event (taskObj w3 a) = Some c"
    by (cases "Event (taskObj w3 a)")
      (auto simp: Tick_def sleepTime_def now_def Poll_def ret_def callTriggerProc_def panic_def)
  from assms n0 poll pk r3 c obtain w4 where w4: "triggerProc env c None w3 = Inr w4"
    by (cases "triggerProc env c None w3")
      (auto simp: Tick_def sleepTime_def now_def Poll_def ret_def callTriggerProc_def)
  obtain n1 x1 where n1: "time_Now env (ext w4) = (n1, x1)"
    by (cases "time_Now env (ext w4)")
  from assms n0 poll pk r3 c w4 n1 have
    "w' = w4\<lparr>ext := x1,
              taskObj := (taskObj w4)
                (a := (taskObj w4 a)\<lparr>nextTriggerTime := n1 + Interval (taskObj w4 a)\<rparr>)\<rparr>"
    and "tr = [TimeNow n0, SelPoll ?b] @ trk @ [CallTrigger OnTask c None, TimeNow n1]"
    by (auto simp: Tick_def sleepTime_def now_def Poll_def ret_def callTriggerProc_def
        setNextTriggerTime_def time_Add_def)
  with n0 poll pk r3 c w4 n1 show ?thesis by blast
qed

lemma Tick_fires_at_most_once:
  assumes "Tick env w = (tr, r)"
  shows "length (filter firesTask tr) \<le> 1"
proof (cases "findNearestTask w")
  case (Inl f)
  with assms show ?thesis by (simp add: Tick_def panic_def)
next
  case (Inr nearest)
  obtain t1 r1 where st: "sleepTime env nearest w = (t1, r1)"
    by (cases "sleepTime env nearest w")
  have t1: "filter firesTask t1 = []" and "\<exists>d w1. r1 = Inr (d, w1)"
    using st by (auto simp: sleepTime_def now_def ret_def split: option.splits prod.splits)
  then obtain d w1 where r1: "r1 = Inr (d, w1)" by blast
  obtain keys w2 where poll: "Poll env (go_quot d Millisecond) w1 = ([SelPoll (go_quot d Millisecond)], Inr (keys, w2))"
    by (cases "sel_Poll env (go_quot d Millisecond) (Selector (el w1))") (simp add: Poll_def)
  obtain trk r3 where pk: "processKeys env keys w2 = (trk, r3)"
    by (cases "processKeys env keys w2")
  note nk = processKeys_no_task [OF pk]
  show ?thesis
  proof (cases r3)
    case f: (Inl f)
    with assms Inr st t1 r1 poll pk nk show ?thesis
      by (auto simp: Tick_def)
  next
    case w3: (Inr w3)
    show ?thesis
    proof (cases nearest)
      case None
      with assms Inr st t1 r1 poll pk nk w3 show ?thesis
        by (auto simp: Tick_def ret_def)
    next
      case (Some a)
      obtain tc rc where call: "callTriggerProc env OnTask (Event (taskObj w3 a)) None w3 = (tc, rc)"
        by (cases "callTriggerProc env OnTask (Event (taskObj w3 a)) None w3")
      have tc: "length (filter firesTask tc) \<le> 1"
        using call by (auto simp: callTriggerProc_def panic_def split: option.splits)
      show ?thesis
      proof (cases rc)
        case (Inl f)
        with assms Inr st t1 r1 poll pk nk w3 Some call tc show ?thesis
          by (auto simp: Tick_def)
      next
        case w4: (Inr w4)
        obtain tn rn where sn: "setNextTriggerTime env (Some a) w4 = (tn, rn)"
          by (cases "setNextTriggerTime env (Some a) w4")
        have "filter firesTask tn = []"
          using sn by (auto simp: setNextTriggerTime_def now_def ret_def split: prod.splits)
        with assms Inr st t1 r1 poll pk nk w3 Some call tc w4 sn show ?thesis
          by (auto simp: Tick_def)
      qed
    qed
  qed
qed

text \<open>
  The quotient by a millisecond, truncated toward zero: it is the number of whole
  milliseconds of a wait that is not over by a millisecond or more, and it is negative
  otherwise.
\<close>

lemma go_quot_Millisecond:
  "(- Millisecond < d \<longrightarrow> go_quot d Millisecond = max 0 d div Millisecond)
   \<and> (d \<le> - Millisecond \<longrightarrow> go_quot d Millisecond < 0)"
proof (intro conjI impI)
  assume "- Millisecond < d"
  then show "go_quot d Millisecond = max 0 d div Millisecond"
    by (cases "0 \<le> d") (auto simp: go_quot_def Millisecond_def sgn_if max_def)
next
  assume "d \<le> - Millisecond"
  then have "1 \<le> \<bar>d\<bar> div 1000000"
    by (simp add: Millisecond_def)
  with \<open>d \<le> - Millisecond\<close> show "go_quot d Millisecond < 0"
    by (simp add: go_quot_def Millisecond_def sgn_if)
qed

lemmas eval_defs =
  Tick_def findNearestTask_def sleepTime_def now_def Poll_def callEventProc_def
  callTriggerProc_def processAction_def rangeEvents_def pending_def setNextTriggerTime_def time_Sub_def
  time_Before_def time_Add_def go_quot_def minDuration_def maxDuration_def ret_def

text \<open>The first tick of the example: the ready descriptor, then the first task.\<close>

lemma Tick_demo_world:
  "fst (Tick demo_env demo_world) =
     [TimeNow 5000000, SelPoll 55, CallEventProc 0 42, CallTrigger OnData 0 (Some 42),
      CallTrigger OnData 1 (Some 42), CallTrigger OnTask 1 None, TimeNow 6000000]"
  "\<not> isl (snd (Tick demo_env demo_world))"
  by (simp_all add: eval_defs demo_defs)

text \<open>
  C1, as the claim states it, fails: the code does not clamp the wait at 0. With the
  clock at 90 ms and the nearest deadline at 60 ms, \<open>max(0, deadline - now)\<close> is 0, and
  \<open>Poll\<close> is called with -30.
\<close>

theorem Tick_wait_budget_counterexample:
  "findNearestTask late_world = Inr (Some 0)
   \<and> take 2 (fst (Tick demo_env late_world)) = [TimeNow (90 * Millisecond), SelPoll (- 30)]
   \<and> max 0 (nextTriggerTime (taskObj late_world 0) - 90 * Millisecond) = 0"
  by (simp add: eval_defs demo_defs)

text \<open>
  C1, amended. With no task registered, the first call of a tick is \<open>Poll\<close> with the
  loop's interval in milliseconds. With tasks registered (no task pointer nil), the tick
  reads the clock and calls \<open>Poll\<close> with \<open>deadline - now\<close> in milliseconds, truncated
  toward zero, where the deadline is that of the task \<open>findNearestTask\<close> returns, which
  no registered task's deadline precedes. The value is not clamped: it is
  \<open>max 0 (deadline - now)\<close> in whole milliseconds as long as the deadline has not passed
  by a millisecond or more, and negative once it has.
\<close>

theorem Tick_wait_budget:
  "(periodTasks (el w) = [] \<longrightarrow>
      (\<exists>tr' r. Tick env w = (SelPoll (go_quot (interval (el w)) Millisecond) # tr', r)))
   \<and> (periodTasks (el w) \<noteq> [] \<and> None \<notin> set (periodTasks (el w)) \<longrightarrow>
      (\<exists>a d tr' r.
          findNearestTask w = Inr (Some a) \<and> Some a \<in> set (periodTasks (el w))
        \<and> (\<forall>b. Some b \<in> set (periodTasks (el w)) \<longrightarrow>
              nextTriggerTime (taskObj w a) \<le> nextTriggerTime (taskObj w b))
        \<and> d = time_Sub (nextTriggerTime (taskObj w a)) (fst (time_Now env (ext w)))
        \<and> Tick env w =
            (TimeNow (fst (time_Now env (ext w))) # SelPoll (go_quot d Millisecond) # tr', r)
        \<and> (- Millisecond < d \<longrightarrow> go_quot d Millisecond = max 0 d div Millisecond)
        \<and> (d \<le> - Millisecond \<longrightarrow> go_quot d Millisecond < 0)))"
proof (intro conjI impI)
  assume "periodTasks (el w) = []"
  then have "findNearestTask w = Inr None"
    by (simp add: findNearestTask_def)
  from Tick_start_None [OF this]
  show "\<exists>tr' r. Tick env w = (SelPoll (go_quot (interval (el w)) Millisecond) # tr', r)" .
next
  assume "periodTasks (el w) \<noteq> [] \<and> None \<notin> set (periodTasks (el w))"
  then obtain a where a: "findNearestTask w = Inr (Some a)" "Some a \<in> set (periodTasks (el w))"
    "\<forall>b. Some b \<in> set (periodTasks (el w)) \<longrightarrow>
              nextTriggerTime (taskObj w a) \<le> nextTriggerTime (taskObj w b)"
    using findNearestTask_least [of w] by blast
  define d where "d = time_Sub (nextTriggerTime (taskObj w a)) (fst (time_Now env (ext w)))"
  from Tick_start_Some [OF a(1), of env] obtain tr' r where
    "Tick env w = (TimeNow (fst (time_Now env (ext w))) # SelPoll (go_quot d Millisecond) # tr', r)"
    unfolding d_def by blast
  with a d_def go_quot_Millisecond [of d]
  show "\<exists>a d tr' r.
          findNearestTask w = Inr (Some a) \<and> Some a \<in> set (periodTasks (el w))
        \<and> (\<forall>b. Some b \<in> set (periodTasks (el w)) \<longrightarrow>
              nextTriggerTime (taskObj w a) \<le> nextTriggerTime (taskObj w b))
        \<and> d = time_Sub (nextTriggerTime (taskObj w a)) (fst (time_Now env (ext w)))
        \<and> Tick env w =
            (TimeNow (fst (time_Now env (ext w))) # SelPoll (go_quot d Millisecond) # tr', r)
        \<and> (- Millisecond < d \<longrightarrow> go_quot d Millisecond = max 0 d div Millisecond)
        \<and> (d \<le> - Millisecond \<longrightarrow> go_quot d Millisecond < 0)"
    by blast
qed

text \<open>
  In the example \<open>Poll\<close> is called with 100 when no task is registered (the interval of
  \<open>NewEventLoop\<close>), and with 55 when the clock is at 5 ms and the deadline at 60 ms.
\<close>

theorem Tick_wait_budget_witness:
  "(\<exists>tr' r. Tick demo_env idle_world = (SelPoll 100 # tr', r))
   \<and> (\<exists>tr' r. Tick demo_env demo_world = (TimeNow (5 * Millisecond) # SelPoll 55 # tr', r))"
proof
  have "periodTasks (el idle_world) = []"
    by (simp add: demo_defs)
  with Tick_wait_budget [of idle_world demo_env]
  have "\<exists>tr' r. Tick demo_env idle_world =
          (SelPoll (go_quot (interval (el idle_world)) Millisecond) # tr', r)"
    by blast
  moreover have "go_quot (interval (el idle_world)) Millisecond = 100"
    by (simp add: go_quot_def demo_defs)
  ultimately show "\<exists>tr' r. Tick demo_env idle_world = (SelPoll 100 # tr', r)"
    by simp
next
  have "periodTasks (el demo_world) \<noteq> [] \<and> None \<notin> set (periodTasks (el demo_world))"
    by (simp add: demo_defs)
  with Tick_wait_budget [of demo_world demo_env] obtain a d tr' r where
    a: "findNearestTask demo_world = Inr (Some a)"
    and d: "d = time_Sub (nextTriggerTime (taskObj demo_world a)) (fst (time_Now demo_env (ext demo_world)))"
    and tick: "Tick demo_env demo_world =
            (TimeNow (fst (time_Now demo_env (ext demo_world))) # SelPoll (go_quot d Millisecond) # tr', r)"
    by blast
  have "findNearestTask demo_world = Inr (Some 0)"
    by (simp add: findNearestTask_def time_Before_def demo_defs)
  with a have "a = 0" by simp
  with d have "go_quot d Millisecond = 55"
    by (simp add: time_Sub_def go_quot_def minDuration_def maxDuration_def demo_defs)
  moreover have "fst (time_Now demo_env (ext demo_world)) = 5 * Millisecond"
    by (simp add: demo_defs)
  ultimately show "\<exists>tr' r. Tick demo_env demo_world = (TimeNow (5 * Millisecond) # SelPoll 55 # tr', r)"
    using tick by simp
qed

text \<open>
  C3. No tick makes more than one call of a task callback. When tasks are registered (no
  task pointer nil) and the tick returns, it has done this, in this order: read the
  clock, called \<open>Poll\<close>, run the loop over the keys that \<open>Poll\<close> returned to its end,
  then run the callback of the task that \<open>findNearestTask\<close> returned at the start of
  the tick, with the nil payload and on the state that the loop over the keys has left,
  then read the clock and stored the new deadline of that task in the state that the
  callback has left. Nothing in this depends on the time or on what \<open>Poll\<close> returned:
  the callback is run whether the deadline has passed or not.
\<close>

theorem Tick_fires_nearest_task:
  assumes "Tick env w = (tr, r)"
  shows "length (filter firesTask tr) \<le> 1
    \<and> (\<forall>w'. periodTasks (el w) \<noteq> [] \<and> None \<notin> set (periodTasks (el w)) \<and> r = Inr w' \<longrightarrow>
         (\<exists>a n0 x0 d keys s trk w3 c w4 n1 x1.
             findNearestTask w = Inr (Some a) \<and> Some a \<in> set (periodTasks (el w))
           \<and> (\<forall>b. Some b \<in> set (periodTasks (el w)) \<longrightarrow>
                 nextTriggerTime (taskObj w a) \<le> nextTriggerTime (taskObj w b))
           \<and> time_Now env (ext w) = (n0, x0)
           \<and> sel_Poll env d (Selector (el w)) = (keys, s)
           \<and> processKeys env keys (w\<lparr>ext := x0, el := (el w)\<lparr>Selector := s\<rparr>\<rparr>) = (trk, Inr w3)
           \<and> Event (taskObj w3 a) = Some c
           \<and> triggerProc env c None w3 = Inr w4
           \<and> time_Now env (ext w4) = (n1, x1)
           \<and> w' = w4\<lparr>ext := x1,
                     taskObj := (taskObj w4)
                       (a := (taskObj w4 a)\<lparr>nextTriggerTime := n1 + Interval (taskObj w4 a)\<rparr>)\<rparr>
           \<and> tr = [TimeNow n0, SelPoll d] @ trk @ [CallTrigger OnTask c None, TimeNow n1]
           \<and> filter firesTask tr = [CallTrigger OnTask c None]))"
proof (intro conjI allI impI)
  from Tick_fires_at_most_once [OF assms] show "length (filter firesTask tr) \<le> 1" .
next
  fix w'
  assume h: "periodTasks (el w) \<noteq> [] \<and> None \<notin> set (periodTasks (el w)) \<and> r = Inr w'"
  then obtain a where a: "findNearestTask w = Inr (Some a)" "Some a \<in> set (periodTasks (el w))"
    "\<forall>b. Some b \<in> set (periodTasks (el w)) \<longrightarrow>
              nextTriggerTime (taskObj w a) \<le> nextTriggerTime (taskObj w b)"
    using findNearestTask_least [of w] by blast
  from assms h have "Tick env w = (tr, Inr w')" by simp
  from Tick_Some_returns [OF a(1) this] obtain n0 x0 keys s trk w3 c w4 n1 x1 where t:
    "time_Now env (ext w) = (n0, x0)"
    "sel_Poll env (go_quot (time_Sub (nextTriggerTime (taskObj w a)) n0) Millisecond)
          (Selector (el w)) = (keys, s)"
    "processKeys env keys (w\<lparr>ext := x0, el := (el w)\<lparr>Selector := s\<rparr>\<rparr>) = (trk, Inr w3)"
    "Event (taskObj w3 a) = Some c"
    "triggerProc env c None w3 = Inr w4"
    "time_Now env (ext w4) = (n1, x1)"
    "w' = w4\<lparr>ext := x1,
              taskObj := (taskObj w4)
                (a := (taskObj w4 a)\<lparr>nextTriggerTime := n1 + Interval (taskObj w4 a)\<rparr>)\<rparr>"
    "tr = [TimeNow n0,
             SelPoll (go_quot (time_Sub (nextTriggerTime (taskObj w a)) n0) Millisecond)]
            @ trk @ [CallTrigger OnTask c None, TimeNow n1]"
    by blast
  from processKeys_no_task [OF t(3)] t(8)
  have "filter firesTask tr = [CallTrigger OnTask c None]"
    by simp
  with a t
  show "\<exists>a n0 x0 d keys s trk w3 c w4 n1 x1.
             findNearestTask w = Inr (Some a) \<and> Some a \<in> set (periodTasks (el w))
           \<and> (\<forall>b. Some b \<in> set (periodTasks (el w)) \<longrightarrow>
                 nextTriggerTime (taskObj w a) \<le> nextTriggerTime (taskObj w b))
           \<and> time_Now env (ext w) = (n0, x0)
           \<and> sel_Poll env d (Selector (el w)) = (keys, s)
           \<and> processKeys env keys (w\<lparr>ext := x0, el := (el w)\<lparr>Selector := s\<rparr>\<rparr>) = (trk, Inr w3)
           \<and> Event (taskObj w3 a) = Some c
           \<and> triggerProc env c None w3 = Inr w4
           \<and> time_Now env (ext w4) = (n1, x1)
           \<and> w' = w4\<lparr>ext := x1,
                     taskObj := (taskObj w4)
                       (a := (taskObj w4 a)\<lparr>nextTriggerTime := n1 + Interval (taskObj w4 a)\<rparr>)\<rparr>
           \<and> tr = [TimeNow n0, SelPoll d] @ trk @ [CallTrigger OnTask c None, TimeNow n1]
           \<and> filter firesTask tr = [CallTrigger OnTask c None]"
    by blast
qed

text \<open>
  In the example the deadline is at 60 ms; \<open>Poll\<close> returns at once with a ready
  descriptor, and the task's callback is run all the same, before 6 ms: it is callback 2,
  and the element 1 of the array of events is what it has assigned.
\<close>

lemma Tick_firing_world:
  "fst (Tick demo_env firing_world) =
     [TimeNow 5000000, SelPoll 55, CallEventProc 0 42, CallTrigger OnData 0 (Some 42),
      CallTrigger OnData 1 (Some 42), CallTrigger OnTask 2 None, TimeNow 6000000]"
  "\<not> isl (snd (Tick demo_env firing_world))"
  by (simp_all add: eval_defs demo_defs)

theorem Tick_fires_nearest_task_witness:
  "nextTriggerTime (taskObj firing_world 0) = 60 * Millisecond
   \<and> eventArray firing_world 7 1 = Some 1
   \<and> fst (Tick demo_env firing_world) =
       [TimeNow 5000000, SelPoll 55, CallEventProc 0 42, CallTrigger OnData 0 (Some 42),
        CallTrigger OnData 1 (Some 42), CallTrigger OnTask 2 None, TimeNow 6000000]
   \<and> filter firesTask (fst (Tick demo_env firing_world)) = [CallTrigger OnTask 2 None]
   \<and> \<not> isl (snd (Tick demo_env firing_world))
   \<and> eventArray (projr (snd (Tick demo_env firing_world))) 7 1 = Some 0"
proof -
  obtain tr r where tick: "Tick demo_env firing_world = (tr, r)"
    by (cases "Tick demo_env firing_world")
  with Tick_firing_world obtain w' where r: "r = Inr w'"
    by (cases r) simp_all
  have tasks: "periodTasks (el firing_world) \<noteq> [] \<and> None \<notin> set (periodTasks (el firing_world))"
    by (simp add: demo_defs)
  from Tick_fires_nearest_task [OF tick] tasks r obtain a w3 c w4 n1 x1 pre where
    a: "findNearestTask firing_world = Inr (Some a)"
    and c: "Event (taskObj w3 a) = Some c"
    and run: "triggerProc demo_env c None w3 = Inr w4"
    and w': "w' = w4\<lparr>ext := x1,
                     taskObj := (taskObj w4)
                       (a := (taskObj w4 a)\<lparr>nextTriggerTime := n1 + Interval (taskObj w4 a)\<rparr>)\<rparr>"
    and tr: "tr = pre @ [CallTrigger OnTask c None, TimeNow n1]"
    and one: "filter firesTask tr = [CallTrigger OnTask c None]"
    by (metis append_assoc)
  from tick Tick_firing_world(1) have tr': "tr =
       [TimeNow 5000000, SelPoll 55, CallEventProc 0 42, CallTrigger OnData 0 (Some 42),
        CallTrigger OnData 1 (Some 42), CallTrigger OnTask 2 None, TimeNow 6000000]"
    by simp
  with tr have "c = 2" by simp
  with one have "filter firesTask tr = [CallTrigger OnTask 2 None]"
    by simp
  moreover have "nextTriggerTime (taskObj firing_world 0) = 60 * Millisecond"
    "eventArray firing_world 7 1 = Some 1"
    by (simp_all add: demo_defs)
  moreover have "eventArray (projr (snd (Tick demo_env firing_world))) 7 1 = Some 0"
    by (simp add: eval_defs demo_defs)
  ultimately show ?thesis using tick tr' Tick_firing_world(2) by simp
qed

text \<open>
  C4, as the claim states it, fails: the new deadline is the clock plus the interval, and
  no interval is refused. The second task of the example has the interval 0: after the
  tick in which it fires, its deadline is 6 ms, the reading of the clock at the
  recomputation, hence not strictly after the firing.
\<close>

theorem Tick_new_deadline_counterexample:
  "fst (Tick demo_env zero_world) =
     [TimeNow 5000000, SelPoll 55, CallEventProc 0 42, CallTrigger OnData 0 (Some 42),
      CallTrigger OnData 1 (Some 42), CallTrigger OnTask 1 None, TimeNow 6000000]
   \<and> \<not> isl (snd (Tick demo_env zero_world))
   \<and> Interval (taskObj (projr (snd (Tick demo_env zero_world))) 1) = 0
   \<and> nextTriggerTime (taskObj (projr (snd (Tick demo_env zero_world))) 1) = 6000000"
  by (simp add: eval_defs demo_defs)

text \<open>
  C4, amended. After a tick in which a task fires, the last call of the tick is the
  reading of the clock, made after the task's callback has returned, and the task's
  deadline is that reading plus the task's interval; it is after the reading exactly when
  the interval is positive.
\<close>

theorem Tick_new_deadline:
  assumes "findNearestTask w = Inr (Some a)" and "Tick env w = (tr, Inr w')"
  shows "\<exists>pre c n. tr = pre @ [CallTrigger OnTask c None, TimeNow n]
      \<and> nextTriggerTime (taskObj w' a) = n + Interval (taskObj w' a)
      \<and> (n < nextTriggerTime (taskObj w' a)) = (0 < Interval (taskObj w' a))"
proof -
  from Tick_Some_returns [OF assms] obtain n0 trk c w4 n1 x1 where
    w': "w' = w4\<lparr>ext := x1,
              taskObj := (taskObj w4)
                (a := (taskObj w4 a)\<lparr>nextTriggerTime := n1 + Interval (taskObj w4 a)\<rparr>)\<rparr>"
    and tr: "tr = [TimeNow n0,
             SelPoll (go_quot (time_Sub (nextTriggerTime (taskObj w a)) n0) Millisecond)]
            @ trk @ [CallTrigger OnTask c None, TimeNow n1]"
    by blast
  from w' have "nextTriggerTime (taskObj w' a) = n1 + Interval (taskObj w' a)"
    by simp
  moreover from tr have "tr = ([TimeNow n0,
             SelPoll (go_quot (time_Sub (nextTriggerTime (taskObj w a)) n0) Millisecond)]
            @ trk) @ [CallTrigger OnTask c None, TimeNow n1]"
    by simp
  ultimately show ?thesis by (intro exI conjI) auto
qed

text \<open>In the example the first task, of interval 50 ms, fires; the clock reads 6 ms.\<close>

theorem Tick_new_deadline_witness:
  "findNearestTask demo_world = Inr (Some 0)
   \<and> \<not> isl (snd (Tick demo_env demo_world))
   \<and> last (fst (Tick demo_env demo_world)) = TimeNow (6 * Millisecond)
   \<and> Interval (taskObj (projr (snd (Tick demo_env demo_world))) 0) = 50 * Millisecond
   \<and> nextTriggerTime (taskObj (projr (snd (Tick demo_env demo_world))) 0) = 56 * Millisecond"
proof -
  obtain tr r where tick: "Tick demo_env demo_world = (tr, r)"
    by (cases "Tick demo_env demo_world")
  with Tick_demo_world obtain w' where r: "r = Inr w'"
    by (cases r) simp_all
  have found: "findNearestTask demo_world = Inr (Some 0)"
    by (simp add: findNearestTask_def time_Before_def demo_defs)
  from Tick_new_deadline [OF found tick [unfolded r]] obtain pre c n where
    n: "tr = pre @ [CallTrigger OnTask c None, TimeNow n]"
    "nextTriggerTime (taskObj w' 0) = n + Interval (taskObj w' 0)"
    by blast
  from tick Tick_demo_world(1) n(1) have "n = 6000000"
    by simp
  moreover have iv: "Interval (taskObj (projr (snd (Tick demo_env demo_world))) 0) = 50 * Millisecond"
    by (simp add: eval_defs demo_defs)
  ultimately have "nextTriggerTime (taskObj w' 0) = 56 * Millisecond"
    using n(2) tick r by (simp add: Millisecond_def)
  with found iv tick r Tick_demo_world show ?thesis
    by (simp add: Millisecond_def)
qed

subsection \<open>Run\<close>

text \<open>
  The second loop of \<open>Run\<close>, when it returns: it has read the clock once for each task
  and called nothing else, it has changed no interval, and each task of the slice has the
  deadline of a reading plus its interval.
\<close>

lemma setNextTriggerTime_Some:
  "setNextTriggerTime env (Some a) w =
     ([TimeNow (fst (time_Now env (ext w)))],
      Inr (w\<lparr>ext := snd (time_Now env (ext w)),
             taskObj := (taskObj w)
               (a := (taskObj w a)\<lparr>nextTriggerTime :=
                       fst (time_Now env (ext w)) + Interval (taskObj w a)\<rparr>)\<rparr>))"
  by (simp add: setNextTriggerTime_def now_def ret_def time_Add_def split: prod.splits)

lemma setAllNextTriggerTimes_Cons:
  assumes "setAllNextTriggerTimes env (t # ts) w = (tr, Inr w')"
  obtains a t2 where "t = Some a"
    and "setAllNextTriggerTimes env ts
           (w\<lparr>ext := snd (time_Now env (ext w)),
              taskObj := (taskObj w)
                (a := (taskObj w a)\<lparr>nextTriggerTime :=
                        fst (time_Now env (ext w)) + Interval (taskObj w a)\<rparr>)\<rparr>) = (t2, Inr w')"
    and "tr = TimeNow (fst (time_Now env (ext w))) # t2"
proof -
  from assms obtain a where t: "t = Some a"
    by (cases t) (auto simp: setNextTriggerTime_def now_def panic_def split: prod.splits)
  let ?w1 = "w\<lparr>ext := snd (time_Now env (ext w)),
              taskObj := (taskObj w)
                (a := (taskObj w a)\<lparr>nextTriggerTime :=
                        fst (time_Now env (ext w)) + Interval (taskObj w a)\<rparr>)\<rparr>"
  obtain t2 r2 where rest: "setAllNextTriggerTimes env ts ?w1 = (t2, r2)"
    by (cases "setAllNextTriggerTimes env ts ?w1")
  with assms t have "r2 = Inr w'" "tr = TimeNow (fst (time_Now env (ext w))) # t2"
    by (simp_all add: setNextTriggerTime_Some)
  with t rest that show thesis by blast
qed

lemma setAllNextTriggerTimes_frame:
  "setAllNextTriggerTimes env ts w = (tr, Inr w') \<Longrightarrow>
     None \<notin> set ts \<and> length tr = length ts \<and> el w' = el w
     \<and> eventArray w' = eventArray w \<and> eventObj w' = eventObj w"
proof (induction ts arbitrary: w tr)
  case Nil
  then show ?case by (simp add: ret_def)
next
  case (Cons t ts)
  from Cons.prems show ?case
  proof (rule setAllNextTriggerTimes_Cons)
    fix a t2
    assume "t = Some a" "tr = TimeNow (fst (time_Now env (ext w))) # t2"
      and "setAllNextTriggerTimes env ts
           (w\<lparr>ext := snd (time_Now env (ext w)),
              taskObj := (taskObj w)
                (a := (taskObj w a)\<lparr>nextTriggerTime :=
                        fst (time_Now env (ext w)) + Interval (taskObj w a)\<rparr>)\<rparr>) = (t2, Inr w')"
    with Cons.IH [OF this(3)] show ?thesis by simp
  qed
qed

lemma setAllNextTriggerTimes_Interval:
  "setAllNextTriggerTimes env ts w = (tr, Inr w') \<Longrightarrow>
     Interval (taskObj w' b) = Interval (taskObj w b) \<and> Event (taskObj w' b) = Event (taskObj w b)"
proof (induction ts arbitrary: w tr)
  case Nil
  then show ?case by (simp add: ret_def)
next
  case (Cons t ts)
  from Cons.prems show ?case
  proof (rule setAllNextTriggerTimes_Cons)
    fix a t2
    assume "setAllNextTriggerTimes env ts
           (w\<lparr>ext := snd (time_Now env (ext w)),
              taskObj := (taskObj w)
                (a := (taskObj w a)\<lparr>nextTriggerTime :=
                        fst (time_Now env (ext w)) + Interval (taskObj w a)\<rparr>)\<rparr>) = (t2, Inr w')"
    from Cons.IH [OF this] show ?thesis by simp
  qed
qed

lemma setAllNextTriggerTimes_other:
  "setAllNextTriggerTimes env ts w = (tr, Inr w') \<Longrightarrow> Some b \<notin> set ts \<Longrightarrow>
     taskObj w' b = taskObj w b"
proof (induction ts arbitrary: w tr)
  case Nil
  then show ?case by (simp add: ret_def)
next
  case (Cons t ts)
  from Cons.prems(1) show ?case
  proof (rule setAllNextTriggerTimes_Cons)
    fix a t2
    assume t: "t = Some a" and "setAllNextTriggerTimes env ts
           (w\<lparr>ext := snd (time_Now env (ext w)),
              taskObj := (taskObj w)
                (a := (taskObj w a)\<lparr>nextTriggerTime :=
                        fst (time_Now env (ext w)) + Interval (taskObj w a)\<rparr>)\<rparr>) = (t2, Inr w')"
    from Cons.IH [OF this(2)] Cons.prems(2) t show ?thesis by simp
  qed
qed

lemma setAllNextTriggerTimes_deadline:
  "setAllNextTriggerTimes env ts w = (tr, Inr w') \<Longrightarrow> Some b \<in> set ts \<Longrightarrow>
     \<exists>n. TimeNow n \<in> set tr \<and> nextTriggerTime (taskObj w' b) = n + Interval (taskObj w' b)"
proof (induction ts arbitrary: w tr)
  case Nil
  then show ?case by simp
next
  case (Cons t ts)
  from Cons.prems(1) show ?case
  proof (rule setAllNextTriggerTimes_Cons)
    fix a t2
    let ?w1 = "w\<lparr>ext := snd (time_Now env (ext w)),
              taskObj := (taskObj w)
                (a := (taskObj w a)\<lparr>nextTriggerTime :=
                        fst (time_Now env (ext w)) + Interval (taskObj w a)\<rparr>)\<rparr>"
    assume t: "t = Some a" and tr: "tr = TimeNow (fst (time_Now env (ext w))) # t2"
      and rest: "setAllNextTriggerTimes env ts ?w1 = (t2, Inr w')"
    show ?thesis
    proof (cases "Some b \<in> set ts")
      case True
      from Cons.IH [OF rest True] tr show ?thesis by auto
    next
      case False
      with Cons.prems(2) t have "b = a" by simp
      moreover from setAllNextTriggerTimes_other [OF rest False]
      have "taskObj w' b = taskObj ?w1 b" .
      ultimately show ?thesis
        using tr by (intro exI [of _ "fst (time_Now env (ext w))"]) simp
    qed
  qed
qed

lemma setAllNextTriggerTimes_calls:
  "setAllNextTriggerTimes env ts w = (tr, Inr w') \<Longrightarrow> \<forall>x \<in> set tr. \<exists>n. x = TimeNow n"
proof (induction ts arbitrary: w tr)
  case Nil
  then show ?case by (simp add: ret_def)
next
  case (Cons t ts)
  from Cons.prems show ?case
  proof (rule setAllNextTriggerTimes_Cons)
    fix a t2
    assume "tr = TimeNow (fst (time_Now env (ext w))) # t2"
      and "setAllNextTriggerTimes env ts
           (w\<lparr>ext := snd (time_Now env (ext w)),
              taskObj := (taskObj w)
                (a := (taskObj w a)\<lparr>nextTriggerTime :=
                        fst (time_Now env (ext w)) + Interval (taskObj w a)\<rparr>)\<rparr>) = (t2, Inr w')"
    with Cons.IH [OF this(2)] show ?thesis by simp
  qed
qed

text \<open>
  The third loop of \<open>Run\<close> returns exactly when, after some number of whole ticks, the
  flag \<open>done\<close> is set, and it was not set before any of these ticks.
\<close>

lemma tickLoop_returns:
  assumes "tickLoop env acc w = Some y"
  shows "\<forall>tr w'. y = (tr, Inr w') \<longrightarrow>
     (\<exists>k tc. ticks env k w = (tc, Inr w')
        \<and> (\<forall>j < k. \<exists>tj wj. ticks env j w = (tj, Inr wj) \<and> \<not> el_done (el wj))
        \<and> el_done (el w') \<and> tr = acc @ tc)"
  using assms
proof (induction env acc w y rule: tickLoop.raw_induct [rotated 1, consumes 1])
  case (1 loop env acc w y)
  show ?case
  proof (intro allI impI)
    fix tr w'
    assume y: "y = (tr, Inr w')"
    show "\<exists>k tc. ticks env k w = (tc, Inr w')
        \<and> (\<forall>j < k. \<exists>tj wj. ticks env j w = (tj, Inr wj) \<and> \<not> el_done (el wj))
        \<and> el_done (el w') \<and> tr = acc @ tc"
    proof (cases "el_done (el w)")
      case True
      with 1(2) y have "tr = acc" "w' = w" by simp_all
      with True show ?thesis by (intro exI [of _ 0] exI [of _ "[]"]) (simp add: ret_def)
    next
      case False
      obtain t r where tick: "Tick env w = (t, r)" by (cases "Tick env w")
      with False 1(2) y obtain w1 where r: "r = Inr w1"
        and loop: "loop env (acc @ t) w1 = Some (tr, Inr w')"
        by (cases r) auto
      from 1(1) [OF loop] obtain k tc where k:
        "ticks env k w1 = (tc, Inr w')"
        "\<forall>j < k. \<exists>tj wj. ticks env j w1 = (tj, Inr wj) \<and> \<not> el_done (el wj)"
        "el_done (el w')" "tr = (acc @ t) @ tc"
        by blast
      have "ticks env (Suc k) w = (t @ tc, Inr w')"
        using tick r k(1) by simp
      moreover have "\<exists>tj wj. ticks env j w = (tj, Inr wj) \<and> \<not> el_done (el wj)"
        if "j < Suc k" for j
      proof (cases j)
        case 0
        with False show ?thesis by (simp add: ret_def)
      next
        case (Suc i)
        with that k(2) obtain tj wj where "ticks env i w1 = (tj, Inr wj)" "\<not> el_done (el wj)"
          by auto
        with Suc tick r show ?thesis by simp
      qed
      ultimately show ?thesis
        using k(3,4) by (intro exI [of _ "Suc k"] exI [of _ "t @ tc"]) simp
    qed
  qed
qed

lemma tickLoop_returns_iff:
  "tickLoop env acc w = Some (tr, Inr w') \<longleftrightarrow>
     (\<exists>k tc. ticks env k w = (tc, Inr w')
        \<and> (\<forall>j < k. \<exists>tj wj. ticks env j w = (tj, Inr wj) \<and> \<not> el_done (el wj))
        \<and> el_done (el w') \<and> tr = acc @ tc)"
  (is "?L \<longleftrightarrow> ?R")
proof
  assume ?L
  from tickLoop_returns [OF this] show ?R by blast
next
  assume ?R
  then obtain k tc where k: "ticks env k w = (tc, Inr w')"
    "\<forall>j < k. \<exists>tj wj. ticks env j w = (tj, Inr wj) \<and> \<not> el_done (el wj)"
    "el_done (el w')" "tr = acc @ tc"
    by blast
  from k(1,2) have "tickLoop env acc w = Some (acc @ tc, Inr w')"
  proof (induction k arbitrary: w acc tc)
    case 0
    with k(3) show ?case by (simp add: ret_def tickLoop.simps)
  next
    case (Suc k)
    from Suc.prems(2) have nd: "\<not> el_done (el w)" by (auto simp: ret_def)
    from Suc.prems(1) obtain t1 w1 t2 where tick: "Tick env w = (t1, Inr w1)"
      and rest: "ticks env k w1 = (t2, Inr w')" and tc: "tc = t1 @ t2"
      by (auto simp: bind_eq_Inr)
    have "\<forall>j < k. \<exists>tj wj. ticks env j w1 = (tj, Inr wj) \<and> \<not> el_done (el wj)"
    proof (intro allI impI)
      fix j assume "j < k"
      with Suc.prems(2) obtain tj wj where "ticks env (Suc j) w = (tj, Inr wj)" "\<not> el_done (el wj)"
        by (metis Suc_less_eq)
      with tick show "\<exists>tj wj. ticks env j w1 = (tj, Inr wj) \<and> \<not> el_done (el wj)"
        by (cases "ticks env j w1") auto
    qed
    from Suc.IH [OF rest this, of "acc @ t1"] nd tick tc show ?case
      by (subst tickLoop.simps) simp
  qed
  with k(4) show ?L by simp
qed

text \<open>
  C8. \<open>Run\<close> returns, with the trace \<open>tr\<close> and in the state \<open>w'\<close>, exactly when
  its three steps have run to their ends one after the other:
  \<^item> the loop over the events: when no element of the slice is nil and the \<open>Serving\<close>
    callbacks that are set leave the event objects and the elements of the slice alone,
    it is \<open>callAll\<close> on those callbacks, that is, each of them is run once, in the
    order of registration, with the nil payload, on the state the one before has left;
  \<^item> the loop over the tasks, which reads the clock once for each task and calls nothing
    else, changes nothing but the clock and the deadlines of the tasks of the slice, and
    leaves each of these tasks with the deadline of a reading plus its interval;
  \<^item> some number \<open>k\<close> of whole ticks, where the flag \<open>done\<close> is not set before any of
    them and is set after the last.

  So the flag is looked at between ticks only: a tick during which it is set runs to its
  end. \<open>Done\<close> sets the flag and changes nothing else.
\<close>

theorem Run_steps:
  "(Run env w = Some (tr, Inr w') \<longleftrightarrow>
     (\<exists>ta wa tb wb k tc.
        rangeEvents env OnServing Serving (\<lambda>_. None) w = (ta, Inr wa)
      \<and> (None \<notin> set (eventsOf w)
           \<and> (\<forall>c \<in> set (hooked Serving (eventObj w) (eventsOf w)). \<forall>p v v'.
                 triggerProc env c p v = Inr v' \<longrightarrow>
                   eventObj v' = eventObj v
                 \<and> (\<forall>j < len (events (el w)).
                       eventArray v' (array (events (el w))) j
                         = eventArray v (array (events (el w))) j)) \<longrightarrow>
             callAll env OnServing (\<lambda>_. None) (hooked Serving (eventObj w) (eventsOf w)) w
               = (ta, Inr wa)
           \<and> ta = map (\<lambda>c. CallTrigger OnServing c None)
                    (hooked Serving (eventObj w) (eventsOf w)))
      \<and> setAllNextTriggerTimes env (periodTasks (el wa)) wa = (tb, Inr wb)
      \<and> length tb = length (periodTasks (el wa))
      \<and> (\<forall>x \<in> set tb. \<exists>n. x = TimeNow n)
      \<and> el wb = el wa \<and> eventArray wb = eventArray wa \<and> eventObj wb = eventObj wa
      \<and> (\<forall>a. Interval (taskObj wb a) = Interval (taskObj wa a)
             \<and> Event (taskObj wb a) = Event (taskObj wa a))
      \<and> (\<forall>a. Some a \<notin> set (periodTasks (el wa)) \<longrightarrow> taskObj wb a = taskObj wa a)
      \<and> (\<forall>a. Some a \<in> set (periodTasks (el wa)) \<longrightarrow>
            (\<exists>n. TimeNow n \<in> set tb
               \<and> nextTriggerTime (taskObj wb a) = n + Interval (taskObj wb a)))
      \<and> ticks env k wb = (tc, Inr w')
      \<and> (\<forall>j < k. \<exists>tj wj. ticks env j wb = (tj, Inr wj) \<and> \<not> el_done (el wj))
      \<and> el_done (el w')
      \<and> tr = ta @ tb @ tc))
   \<and> Done v = v\<lparr>el := (el v)\<lparr>el_done := True\<rparr>\<rparr>"
proof (intro conjI iffI)
  assume run: "Run env w = Some (tr, Inr w')"
  let ?A = "rangeEvents env OnServing Serving (\<lambda>_. None) w"
  obtain ta ra where A: "?A = (ta, ra)" by (cases ?A)
  from run A obtain wa where ra: "ra = Inr wa"
    by (cases ra) (auto simp: Run_def)
  obtain tb rb where B: "setAllNextTriggerTimes env (periodTasks (el wa)) wa = (tb, rb)"
    by (cases "setAllNextTriggerTimes env (periodTasks (el wa)) wa")
  from run A ra B obtain wb where rb: "rb = Inr wb"
    by (cases rb) (auto simp: Run_def)
  from run A ra B rb have loop: "tickLoop env (ta @ tb) wb = Some (tr, Inr w')"
    by (simp add: Run_def)
  then obtain k tc where k: "ticks env k wb = (tc, Inr w')"
    "\<forall>j < k. \<exists>tj wj. ticks env j wb = (tj, Inr wj) \<and> \<not> el_done (el wj)"
    "el_done (el w')" "tr = (ta @ tb) @ tc"
    unfolding tickLoop_returns_iff by blast
  note A' = A [unfolded ra]
  have a_detail: "callAll env OnServing (\<lambda>_. None) (hooked Serving (eventObj w) (eventsOf w)) w
               = (ta, Inr wa)
           \<and> ta = map (\<lambda>c. CallTrigger OnServing c None)
                    (hooked Serving (eventObj w) (eventsOf w))"
    if h: "None \<notin> set (eventsOf w)
           \<and> (\<forall>c \<in> set (hooked Serving (eventObj w) (eventsOf w)). \<forall>p v v'.
                 triggerProc env c p v = Inr v' \<longrightarrow>
                   eventObj v' = eventObj v
                 \<and> (\<forall>j < len (events (el w)).
                       eventArray v' (array (events (el w))) j
                         = eventArray v (array (events (el w))) j))"
  proof -
    from h have nn: "None \<notin> set (eventsOf w)"
      and frame: "\<forall>c \<in> set (hooked Serving (eventObj w) (eventsOf w)). \<forall>p v v'.
                 triggerProc env c p v = Inr v' \<longrightarrow>
                   eventObj v' = eventObj v
                 \<and> (\<forall>j < len (events (el w)).
                       eventArray v' (array (events (el w))) j
                         = eventArray v (array (events (el w))) j)"
      by blast+
    from rangeEvents_callAll [OF nn frame, of OnServing "\<lambda>_. None"] A'
    have c: "callAll env OnServing (\<lambda>_. None) (hooked Serving (eventObj w) (eventsOf w)) w
               = (ta, Inr wa)"
      by simp
    from callAll_trace [OF c] c show ?thesis by blast
  qed
  note Bw = B [unfolded rb]
  from setAllNextTriggerTimes_frame [OF Bw]
  have fr: "length tb = length (periodTasks (el wa))" "el wb = el wa"
    "eventArray wb = eventArray wa" "eventObj wb = eventObj wa"
    by blast+
  have iv: "\<forall>a. Interval (taskObj wb a) = Interval (taskObj wa a)
             \<and> Event (taskObj wb a) = Event (taskObj wa a)"
    using setAllNextTriggerTimes_Interval [OF Bw] by blast
  have other: "\<forall>a. Some a \<notin> set (periodTasks (el wa)) \<longrightarrow> taskObj wb a = taskObj wa a"
    using setAllNextTriggerTimes_other [OF Bw] by blast
  have dl: "\<forall>a. Some a \<in> set (periodTasks (el wa)) \<longrightarrow>
            (\<exists>n. TimeNow n \<in> set tb
               \<and> nextTriggerTime (taskObj wb a) = n + Interval (taskObj wb a))"
    using setAllNextTriggerTimes_deadline [OF Bw] by blast
  note calls = setAllNextTriggerTimes_calls [OF Bw]
  from k(4) have tr: "tr = ta @ tb @ tc" by simp
  from a_detail have ad: "None \<notin> set (eventsOf w)
           \<and> (\<forall>c \<in> set (hooked Serving (eventObj w) (eventsOf w)). \<forall>p v v'.
                 triggerProc env c p v = Inr v' \<longrightarrow>
                   eventObj v' = eventObj v
                 \<and> (\<forall>j < len (events (el w)).
                       eventArray v' (array (events (el w))) j
                         = eventArray v (array (events (el w))) j)) \<longrightarrow>
             callAll env OnServing (\<lambda>_. None) (hooked Serving (eventObj w) (eventsOf w)) w
               = (ta, Inr wa)
           \<and> ta = map (\<lambda>c. CallTrigger OnServing c None)
                    (hooked Serving (eventObj w) (eventsOf w))"
    by blast
  show "\<exists>ta wa tb wb k tc.
        rangeEvents env OnServing Serving (\<lambda>_. None) w = (ta, Inr wa)
      \<and> (None \<notin> set (eventsOf w)
           \<and> (\<forall>c \<in> set (hooked Serving (eventObj w) (eventsOf w)). \<forall>p v v'.
                 triggerProc env c p v = Inr v' \<longrightarrow>
                   eventObj v' = eventObj v
                 \<and> (\<forall>j < len (events (el w)).
                       eventArray v' (array (events (el w))) j
                         = eventArray v (array (events (el w))) j)) \<longrightarrow>
             callAll env OnServing (\<lambda>_. None) (hooked Serving (eventObj w) (eventsOf w)) w
               = (ta, Inr wa)
           \<and> ta = map (\<lambda>c. CallTrigger OnServing c None)
                    (hooked Serving (eventObj w) (eventsOf w)))
      \<and> setAllNextTriggerTimes env (periodTasks (el wa)) wa = (tb, Inr wb)
      \<and> length tb = length (periodTasks (el wa))
      \<and> (\<forall>x \<in> set tb. \<exists>n. x = TimeNow n)
      \<and> el wb = el wa \<and> eventArray wb = eventArray wa \<and> eventObj wb = eventObj wa
      \<and> (\<forall>a. Interval (taskObj wb a) = Interval (taskObj wa a)
             \<and> Event (taskObj wb a) = Event (taskObj wa a))
      \<and> (\<forall>a. Some a \<notin> set (periodTasks (el wa)) \<longrightarrow> taskObj wb a = taskObj wa a)
      \<and> (\<forall>a. Some a \<in> set (periodTasks (el wa)) \<longrightarrow>
            (\<exists>n. TimeNow n \<in> set tb
               \<and> nextTriggerTime (taskObj wb a) = n + Interval (taskObj wb a)))
      \<and> ticks env k wb = (tc, Inr w')
      \<and> (\<forall>j < k. \<exists>tj wj. ticks env j wb = (tj, Inr wj) \<and> \<not> el_done (el wj))
      \<and> el_done (el w')
      \<and> tr = ta @ tb @ tc"
    by (rule exI [of _ ta], rule exI [of _ wa], rule exI [of _ tb], rule exI [of _ wb],
        rule exI [of _ k], rule exI [of _ tc])
      (use A' ad Bw fr calls iv other dl k(1,2,3) tr in blast)
next
  assume "\<exists>ta wa tb wb k tc.
        rangeEvents env OnServing Serving (\<lambda>_. None) w = (ta, Inr wa)
      \<and> (None \<notin> set (eventsOf w)
           \<and> (\<forall>c \<in> set (hooked Serving (eventObj w) (eventsOf w)). \<forall>p v v'.
                 triggerProc env c p v = Inr v' \<longrightarrow>
                   eventObj v' = eventObj v
                 \<and> (\<forall>j < len (events (el w)).
                       eventArray v' (array (events (el w))) j
                         = eventArray v (array (events (el w))) j)) \<longrightarrow>
             callAll env OnServing (\<lambda>_. None) (hooked Serving (eventObj w) (eventsOf w)) w
               = (ta, Inr wa)
           \<and> ta = map (\<lambda>c. CallTrigger OnServing c None)
                    (hooked Serving (eventObj w) (eventsOf w)))
      \<and> setAllNextTriggerTimes env (periodTasks (el wa)) wa = (tb, Inr wb)
      \<and> length tb = length (periodTasks (el wa))
      \<and> (\<forall>x \<in> set tb. \<exists>n. x = TimeNow n)
      \<and> el wb = el wa \<and> eventArray wb = eventArray wa \<and> eventObj wb = eventObj wa
      \<and> (\<forall>a. Interval (taskObj wb a) = Interval (taskObj wa a)
             \<and> Event (taskObj wb a) = Event (taskObj wa a))
      \<and> (\<forall>a. Some a \<notin> set (periodTasks (el wa)) \<longrightarrow> taskObj wb a = taskObj wa a)
      \<and> (\<forall>a. Some a \<in> set (periodTasks (el wa)) \<longrightarrow>
            (\<exists>n. TimeNow n \<in> set tb
               \<and> nextTriggerTime (taskObj wb a) = n + Interval (taskObj wb a)))
      \<and> ticks env k wb = (tc, Inr w')
      \<and> (\<forall>j < k. \<exists>tj wj. ticks env j wb = (tj, Inr wj) \<and> \<not> el_done (el wj))
      \<and> el_done (el w')
      \<and> tr = ta @ tb @ tc"
  then obtain ta wa tb wb k tc where
    A: "rangeEvents env OnServing Serving (\<lambda>_. None) w = (ta, Inr wa)"
    and B: "setAllNextTriggerTimes env (periodTasks (el wa)) wa = (tb, Inr wb)"
    and k: "ticks env k wb = (tc, Inr w')"
      "\<forall>j < k. \<exists>tj wj. ticks env j wb = (tj, Inr wj) \<and> \<not> el_done (el wj)"
      "el_done (el w')"
    and tr: "tr = ta @ tb @ tc"
    by blast
  from k tr have "tickLoop env (ta @ tb) wb = Some (tr, Inr w')"
    unfolding tickLoop_returns_iff by auto
  with A B show "Run env w = Some (tr, Inr w')"
    by (simp add: Run_def)
next
  show "Done v = v\<lparr>el := (el v)\<lparr>el_done := True\<rparr>\<rparr>"
    by (simp add: Done_def)
qed

text \<open>
  In the example the \<open>Data\<close> callback of the first event calls \<open>Done\<close> in the middle
  of the first tick: the second event's callback and the task's callback are still
  called, and \<open>Run\<close> returns after this one tick, with the flag set.
\<close>

theorem Run_steps_witness:
  "\<exists>w'. Run demo_env demo_world =
      Some ([CallTrigger OnServing 1 None, TimeNow 5000000, TimeNow 6000000,
             TimeNow 7000000, SelPoll (- 1), CallEventProc 0 42,
             CallTrigger OnData 0 (Some 42), CallTrigger OnData 1 (Some 42),
             CallTrigger OnTask 1 None, TimeNow 8000000], Inr w')
     \<and> el_done (el w')"
proof -
  let ?tr = "[CallTrigger OnServing 1 None, TimeNow 5000000, TimeNow 6000000,
             TimeNow 7000000, SelPoll (- 1), CallEventProc 0 42,
             CallTrigger OnData 0 (Some 42), CallTrigger OnData 1 (Some 42),
             CallTrigger OnTask 1 None, TimeNow 8000000]"
  have "\<exists>w'. Run demo_env demo_world = Some (?tr, Inr w')"
    by (simp add: Run_def tickLoop.simps eval_defs demo_defs)
  then obtain w' where run: "Run demo_env demo_world = Some (?tr, Inr w')"
    by blast
  from Run_steps [of demo_env demo_world ?tr w'] run have "el_done (el w')"
    by blast
  with run show ?thesis by blast
qed

end
